theory Spec2Isabelle
  imports Complex_Main "HOL-Library.Multiset"
begin

section \<open>JavaScript numbers\<close>

text \<open>
  Every number of \<^verbatim>\<open>benchmark_compare.js\<close> is an IEEE 754 binary64 value. A finite one is
  modelled by the real number it denotes: the type \<open>double\<close> holds the reals \<open>m * 2\<^sup>e\<close> with
  \<open>\<bar>m\<bar> < 2\<^sup>5\<^sup>3\<close> and \<open>-1074 \<le> e \<le> 971\<close>. An arithmetic operation takes the exact real
  result and rounds it to the nearest double, a tie going to the even significand
  (\<open>rd\<close>); a result that rounds beyond the largest double is an infinity (\<open>fl\<close>). The three
  special values are kept, as the code does produce them (\<^verbatim>\<open>0 / 0\<close>, \<^verbatim>\<open>x / 0\<close>,
  \<^verbatim>\<open>undefined + undefined\<close>) and they decide what its comparisons answer.

  Modelling assumptions, in force for every theorem below:
  \<^item> the two zeros are one value, and a zero divisor is \<^verbatim>\<open>+0\<close>;
  \<^item> an observation stored in a sample array is a finite number;
  \<^item> \<^verbatim>\<open>x ** 2\<close> is the correctly rounded product and \<^verbatim>\<open>Math.sqrt\<close> the correctly rounded
    square root;
  \<^item> the length of an array and the difference of two readings of the clock, which
    the code turns into doubles, are below \<open>2\<^sup>1\<^sup>0\<^sup>2\<^sup>4\<close>.
\<close>

subsection \<open>Rounding to the nearest double\<close>

text \<open>\<open>ilog2 n\<close> is the position of the leading bit of \<open>n\<close>, and \<open>expo x\<close> the exponent of the
  binade of \<open>x \<noteq> 0\<close>: \<open>2 powi expo x \<le> \<bar>x\<bar> < 2 powi (expo x + 1)\<close>.\<close>

fun ilog2 :: "nat \<Rightarrow> nat" where
  "ilog2 n = (if n < 2 then 0 else Suc (ilog2 (n div 2)))"

declare ilog2.simps [simp del]

definition expo :: "real \<Rightarrow> int" where
  "expo x = (if 1 \<le> \<bar>x\<bar> then int (ilog2 (nat \<lfloor>\<bar>x\<bar>\<rfloor>))
             else - int (Suc (ilog2 (nat \<lceil>1 / \<bar>x\<bar>\<rceil> - 1))))"

text \<open>
  The doubles of the binade of \<open>x\<close> are the multiples of \<open>2 powi quantum x\<close>: 53 significant
  bits, and the fixed spacing \<open>2 powi (-1074)\<close> of the subnormal numbers at the bottom.
\<close>

definition quantum :: "real \<Rightarrow> int" where
  "quantum x = max (expo x - 52) (- 1074)"

text \<open>The integer nearest to \<open>q\<close>, the even one of the two when \<open>q\<close> lies half way.\<close>

definition rne :: "real \<Rightarrow> int" where
  "rne q = (let f = \<lfloor>q\<rfloor>
            in if q - of_int f < 1 / 2 then f
               else if 1 / 2 < q - of_int f then f + 1
               else if even f then f else f + 1)"

definition rd :: "real \<Rightarrow> real" where
  "rd x = (if x = 0 then 0 else of_int (rne (x / 2 powi quantum x)) * 2 powi quantum x)"

definition is_double :: "real \<Rightarrow> bool" where
  "is_double x \<longleftrightarrow>
     (\<exists>m e. x = of_int m * 2 powi e \<and> \<bar>m\<bar> < 2 ^ 53 \<and> - 1074 \<le> e \<and> e \<le> 971)"

typedef double = "{x::real. is_double x}"
  morphisms val Abs_double
proof
  have "(0::real) = of_int 0 * 2 powi 0 \<and> \<bar>0::int\<bar> < 2 ^ 53 \<and> (- 1074 :: int) \<le> 0 \<and> (0::int) \<le> 971"
    by simp
  then have "is_double 0"
    unfolding is_double_def by blast
  then show "0 \<in> {x::real. is_double x}"
    by simp
qed

text \<open>
  \<open>D x\<close> is the double nearest to \<open>x\<close>, what a numeric literal of the source denotes; it is
  meant for \<open>\<bar>rd x\<bar> < 2\<^sup>1\<^sup>0\<^sup>2\<^sup>4\<close> only, and \<open>fl\<close> asks before it uses it. Doubles are ordered
  as the reals they denote.
\<close>

definition D :: "real \<Rightarrow> double" where
  "D x = Abs_double (rd x)"

instantiation double :: linorder
begin

definition less_eq_double :: "double \<Rightarrow> double \<Rightarrow> bool" where
  "less_eq_double a b \<longleftrightarrow> val a \<le> val b"

definition less_double :: "double \<Rightarrow> double \<Rightarrow> bool" where
  "less_double a b \<longleftrightarrow> val a < val b"

instance
  by standard (auto simp add: less_eq_double_def less_double_def val_inject)

end

subsection \<open>Numbers and their operations\<close>

datatype jsnum = Num double | PInf | NInf | NaN

definition fl :: "real \<Rightarrow> jsnum" where
  "fl x = (if \<bar>rd x\<bar> < 2 ^ 1024 then Num (D x) else if 0 < x then PInf else NInf)"

text \<open>The infinity that a non-zero finite number of sign \<open>s\<close> turns into; \<^verbatim>\<open>NaN\<close> for zero.\<close>

definition inf_of_sign :: "real \<Rightarrow> jsnum" where
  "inf_of_sign s = (if s = 0 then NaN else if 0 < s then PInf else NInf)"

fun js_add :: "jsnum \<Rightarrow> jsnum \<Rightarrow> jsnum" where
  "js_add (Num x) (Num y) = fl (val x + val y)"
| "js_add NaN _ = NaN"
| "js_add _ NaN = NaN"
| "js_add PInf NInf = NaN"
| "js_add NInf PInf = NaN"
| "js_add PInf _ = PInf"
| "js_add _ PInf = PInf"
| "js_add NInf _ = NInf"
| "js_add _ NInf = NInf"

fun js_sub :: "jsnum \<Rightarrow> jsnum \<Rightarrow> jsnum" where
  "js_sub (Num x) (Num y) = fl (val x - val y)"
| "js_sub NaN _ = NaN"
| "js_sub _ NaN = NaN"
| "js_sub PInf PInf = NaN"
| "js_sub NInf NInf = NaN"
| "js_sub PInf _ = PInf"
| "js_sub _ PInf = NInf"
| "js_sub NInf _ = NInf"
| "js_sub _ NInf = PInf"

fun js_mul :: "jsnum \<Rightarrow> jsnum \<Rightarrow> jsnum" where
  "js_mul (Num x) (Num y) = fl (val x * val y)"
| "js_mul NaN _ = NaN"
| "js_mul _ NaN = NaN"
| "js_mul PInf (Num y) = inf_of_sign (val y)"
| "js_mul (Num x) PInf = inf_of_sign (val x)"
| "js_mul NInf (Num y) = inf_of_sign (- val y)"
| "js_mul (Num x) NInf = inf_of_sign (- val x)"
| "js_mul PInf PInf = PInf"
| "js_mul NInf NInf = PInf"
| "js_mul PInf NInf = NInf"
| "js_mul NInf PInf = NInf"

fun js_div :: "jsnum \<Rightarrow> jsnum \<Rightarrow> jsnum" where
  "js_div (Num x) (Num y) = (if val y = 0 then inf_of_sign (val x) else fl (val x / val y))"
| "js_div NaN _ = NaN"
| "js_div _ NaN = NaN"
| "js_div (Num x) PInf = Num (D 0)"
| "js_div (Num x) NInf = Num (D 0)"
| "js_div PInf (Num y) = (if 0 \<le> val y then PInf else NInf)"
| "js_div NInf (Num y) = (if 0 \<le> val y then NInf else PInf)"
| "js_div PInf PInf = NaN"
| "js_div PInf NInf = NaN"
| "js_div NInf PInf = NaN"
| "js_div NInf NInf = NaN"

text \<open>\<^verbatim>\<open>a < b\<close>: false as soon as one operand is \<^verbatim>\<open>NaN\<close>.\<close>

fun js_lt :: "jsnum \<Rightarrow> jsnum \<Rightarrow> bool" where
  "js_lt (Num x) (Num y) = (x < y)"
| "js_lt NaN _ = False"
| "js_lt _ NaN = False"
| "js_lt _ NInf = False"
| "js_lt PInf _ = False"
| "js_lt NInf _ = True"
| "js_lt _ PInf = True"

definition js_gt :: "jsnum \<Rightarrow> jsnum \<Rightarrow> bool" where
  "js_gt a b = js_lt b a"

text \<open>\<^verbatim>\<open>Math.abs\<close>, \<^verbatim>\<open>Math.max\<close> of two arguments, \<^verbatim>\<open>Math.sqrt\<close> and \<^verbatim>\<open>x ** 2\<close>.\<close>

fun js_abs :: "jsnum \<Rightarrow> jsnum" where
  "js_abs (Num x) = fl \<bar>val x\<bar>"
| "js_abs PInf = PInf"
| "js_abs NInf = PInf"
| "js_abs NaN = NaN"

fun js_max :: "jsnum \<Rightarrow> jsnum \<Rightarrow> jsnum" where
  "js_max (Num x) (Num y) = Num (max x y)"
| "js_max NaN _ = NaN"
| "js_max _ NaN = NaN"
| "js_max PInf _ = PInf"
| "js_max _ PInf = PInf"
| "js_max NInf b = b"
| "js_max a NInf = a"

fun js_sqrt :: "jsnum \<Rightarrow> jsnum" where
  "js_sqrt (Num x) = (if val x < 0 then NaN else fl (sqrt (val x)))"
| "js_sqrt PInf = PInf"
| "js_sqrt NInf = NaN"
| "js_sqrt NaN = NaN"

definition js_sq :: "jsnum \<Rightarrow> jsnum" where
  "js_sq a = js_mul a a"

section \<open>Statistics helpers\<close>

text \<open>
  \<^verbatim>\<open>sorted[i]\<close> as an operand: an index outside the array reads \<^verbatim>\<open>undefined\<close>,
  which \<^verbatim>\<open>+\<close> converts to \<^verbatim>\<open>NaN\<close>. (The odd branch of \<open>median\<close> returns the element
  itself, but there the index is always inside the array.)
\<close>

definition js_at :: "double list \<Rightarrow> int \<Rightarrow> jsnum" where
  "js_at xs i = (if 0 \<le> i \<and> i < int (length xs) then Num (xs ! nat i) else NaN)"

text \<open>
  \<^verbatim>\<open>[...arr].sort((a, b) => a - b)\<close>: on finite numbers the comparator is a consistent
  total order, so the result is the ascending arrangement of the elements, \<open>sort\<close>.
\<close>

definition median :: "double list \<Rightarrow> jsnum" where
  "median arr =
     (let sorted = sort arr;
          mid = int (length sorted) div 2
      in if length sorted mod 2 \<noteq> 0 then js_at sorted mid
         else js_div (js_add (js_at sorted (mid - 1)) (js_at sorted mid)) (Num (D 2)))"

definition mean :: "double list \<Rightarrow> jsnum" where
  "mean arr =
     js_div (foldl (\<lambda>a b. js_add a (Num b)) (Num (D 0)) arr) (Num (D (real (length arr))))"

definition stddev :: "double list \<Rightarrow> jsnum" where
  "stddev arr =
     (let m = mean arr
      in js_sqrt (js_div (foldl (\<lambda>sum v. js_add sum (js_sq (js_sub (Num v) m))) (Num (D 0)) arr)
                         (Num (D (real_of_int (int (length arr) - 1))))))"

section \<open>Formatting\<close>

text \<open>The decimal digits of a natural number, most significant first, no leading zero.\<close>

definition digit_char :: "nat \<Rightarrow> char" where
  "digit_char d = ''0123456789'' ! d"

fun digits :: "nat \<Rightarrow> string" where
  "digits n = (if n < 10 then [digit_char n] else digits (n div 10) @ [digit_char (n mod 10)])"

declare digits.simps [simp del]

text \<open>
  \<^verbatim>\<open>Number.prototype.toFixed(f)\<close> as ECMA-262 defines it: a non-finite number prints as
  \<^verbatim>\<open>ToString\<close> does; the sign is split off; below \<open>10\<^sup>2\<^sup>1\<close> the integer \<open>n\<close> nearest to
  \<open>x * 10\<^sup>f\<close> (the larger one on a tie) is printed with at least \<open>f + 1\<close> digits and a
  point before the last \<open>f\<close>. From \<open>10\<^sup>2\<^sup>1\<close> on the result is \<^verbatim>\<open>ToString(x)\<close>, the
  shortest decimal that reads back as the same double: that depends on the binary
  representation, so it is the parameter \<open>big\<close>.
\<close>

fun toFixed :: "(real \<Rightarrow> string) \<Rightarrow> nat \<Rightarrow> jsnum \<Rightarrow> string" where
  "toFixed big f NaN = ''NaN''"
| "toFixed big f PInf = ''Infinity''"
| "toFixed big f NInf = ''-Infinity''"
| "toFixed big f (Num x0) =
     (let s = (if val x0 < 0 then ''-'' else []);
          x = \<bar>val x0\<bar>
      in if 10 ^ 21 \<le> x then s @ big x
         else
           let n = nat \<lfloor>x * 10 ^ f + 1 / 2\<rfloor>;
               m = digits n
           in if f \<noteq> 0
              then let m2 = (if length m \<le> f then replicate (f + 1 - length m) CHR ''0'' @ m else m);
                       k = length m2
                   in s @ take (k - f) m2 @ ''.'' @ drop (k - f) m2
              else s @ m)"

definition formatMs :: "(real \<Rightarrow> string) \<Rightarrow> jsnum \<Rightarrow> string" where
  "formatMs big ms = toFixed big 2 ms @ '' ms''"

definition pctDiff :: "(real \<Rightarrow> string) \<Rightarrow> jsnum \<Rightarrow> jsnum \<Rightarrow> string" where
  "pctDiff big msvc clang =
     (let diff = js_mul (js_div (js_sub clang msvc) msvc) (Num (D 100));
          sign = (if js_gt diff (Num (D 0)) then ''+'' else [])
      in sign @ toFixed big 2 diff @ ''%'')"

section \<open>Winner adjudication\<close>

text \<open>
  \<^verbatim>\<open>winner(msvcVal, clangVal, lowerIsBetter = true, msvcStd = 0, clangStd = 0)\<close>: a call
  that leaves the last three arguments out is \<open>winner a b True (Num (D 0)) (Num (D 0))\<close>.
\<close>

definition winner :: "jsnum \<Rightarrow> jsnum \<Rightarrow> bool \<Rightarrow> jsnum \<Rightarrow> jsnum \<Rightarrow> string" where
  "winner msvcVal clangVal lowerIsBetter msvcStd clangStd =
     (if (js_gt msvcStd (Num (D 0)) \<or> js_gt clangStd (Num (D 0)))
         \<and> js_lt (js_abs (js_sub msvcVal clangVal)) (js_max msvcStd clangStd)
      then ''~Tie''
      else if lowerIsBetter
      then (if js_lt msvcVal clangVal then ''MSVC''
            else if js_gt msvcVal clangVal then ''ClangCL'' else ''Tie'')
      else (if js_gt msvcVal clangVal then ''MSVC''
            else if js_lt msvcVal clangVal then ''ClangCL'' else ''Tie''))"

text \<open>
  The three verdicts of the specification. Candidate A is the MSVC binary, candidate B
  the ClangCL binary; the summary loop of \<^verbatim>\<open>main\<close> tells the labels apart in exactly
  this way: \<^verbatim>\<open>'MSVC'\<close>, else \<^verbatim>\<open>'ClangCL'\<close>, else a tie.
\<close>

datatype verdict = CandA | CandB | Tie

definition verdict_of :: "string \<Rightarrow> verdict" where
  "verdict_of w = (if w = ''MSVC'' then CandA else if w = ''ClangCL'' then CandB else Tie)"

section \<open>Running the binaries\<close>

text \<open>
  What \<^verbatim>\<open>spawnSync\<close> hands back: \<^verbatim>\<open>stdout\<close> and \<^verbatim>\<open>stderr\<close> (\<^verbatim>\<open>null\<close> when the process could
  not be started), the exit status (\<^verbatim>\<open>null\<close> when the process was killed, as it is on a
  timeout) and whether \<^verbatim>\<open>error\<close> reports the timeout.
\<close>

record spawn_ret =
  sp_stdout :: "string option"
  sp_stderr :: "string option"
  sp_status :: "int option"
  sp_timedOut :: bool

text \<open>
  The world outside the script, threaded as a state \<open>'w\<close>: starting a process, reading the
  monotonic clock (nanoseconds) and drawing from \<^verbatim>\<open>Math.random\<close>. \<^verbatim>\<open>parseFloat\<close> and
  \<^verbatim>\<open>String.prototype.trim\<close> are pure; \<^verbatim>\<open>parseFloat\<close> answers \<open>None\<close> for \<^verbatim>\<open>NaN\<close> and,
  observations being finite, never an infinity. The options of a process are a list of
  keys and values in which the first entry of a key counts.
\<close>

record 'w env =
  spawnSync :: "'w \<Rightarrow> string \<Rightarrow> string list \<Rightarrow> (string \<times> string) list \<Rightarrow> spawn_ret \<times> 'w"
  hrtime :: "'w \<Rightarrow> int"
  random :: "'w \<Rightarrow> real \<times> 'w"
  parseFloat :: "string \<Rightarrow> double option"
  trim :: "string \<Rightarrow> string"

record config =
  MSVC_BIN :: string
  CLANG_BIN :: string

definition ITERATIONS :: nat where
  "ITERATIONS = 30"

definition WARMUP :: nat where
  "WARMUP = 10"

record timed =
  durationMs :: double
  stdout :: string
  stderr :: string
  status :: "int option"

text \<open>
  \<^verbatim>\<open>result.stdout || ''\<close>: \<^verbatim>\<open>null\<close> and the empty string both give the empty string. In
  \<open>runTimed\<close> the caller's options come first, as the spread \<^verbatim>\<open>...options\<close> lets them
  replace the three defaults.
\<close>

definition or_empty :: "string option \<Rightarrow> string" where
  "or_empty s = (case s of None \<Rightarrow> [] | Some t \<Rightarrow> t)"

definition runTimed ::
  "'w env \<Rightarrow> 'w \<Rightarrow> string \<Rightarrow> string list \<Rightarrow> (string \<times> string) list \<Rightarrow> timed \<times> 'w" where
  "runTimed E w bin args options =
     (let start = hrtime E w;
          (result, w') = spawnSync E w bin args
             (options @ [(''encoding'', ''utf8''), (''timeout'', ''60000''), (''windowsHide'', ''true'')]);
          end = hrtime E w'
      in (\<lparr>durationMs = D (val (D (real_of_int (end - start))) / 10 ^ 6),
           stdout = or_empty (sp_stdout result),
           stderr = or_empty (sp_stderr result),
           status = sp_status result\<rparr>, w'))"

record both =
  msvc :: timed
  clang :: timed

definition runBothTimed ::
  "'w env \<Rightarrow> config \<Rightarrow> 'w \<Rightarrow> string list \<Rightarrow> (string \<times> string) list \<Rightarrow> both \<times> 'w" where
  "runBothTimed E C w args options =
     (let (r, w0) = random E w
      in if r < 0.5
         then let (m, w1) = runTimed E w0 (MSVC_BIN C) args options;
                  (c, w2) = runTimed E w1 (CLANG_BIN C) args options
              in (\<lparr>msvc = m, clang = c\<rparr>, w2)
         else let (c, w1) = runTimed E w0 (CLANG_BIN C) args options;
                  (m, w2) = runTimed E w1 (MSVC_BIN C) args options
              in (\<lparr>msvc = m, clang = c\<rparr>, w2))"

section \<open>Sampling\<close>

record times =
  times_msvc :: "double list"
  times_clang :: "double list"

text \<open>\<^verbatim>\<open>for (let i = 0; i < WARMUP; i++) runBothTimed(args)\<close>: the results are dropped.\<close>

fun warmup_loop :: "'w env \<Rightarrow> config \<Rightarrow> string list \<Rightarrow> nat \<Rightarrow> 'w \<Rightarrow> 'w" where
  "warmup_loop E C args 0 w = w"
| "warmup_loop E C args (Suc n) w = warmup_loop E C args n (snd (runBothTimed E C w args []))"

text \<open>
  The measured loop of \<^verbatim>\<open>benchStartupTime\<close>, \<^verbatim>\<open>benchRequireFS\<close> and \<^verbatim>\<open>benchRequireHeavy\<close>:
  both durations are pushed, whatever the processes returned.
\<close>

fun duration_loop :: "'w env \<Rightarrow> config \<Rightarrow> string list \<Rightarrow> nat \<Rightarrow> times \<Rightarrow> 'w \<Rightarrow> times \<times> 'w" where
  "duration_loop E C args 0 t w = (t, w)"
| "duration_loop E C args (Suc n) t w =
     (let (b, w') = runBothTimed E C w args []
      in duration_loop E C args n
           \<lparr>times_msvc = times_msvc t @ [durationMs (msvc b)],
            times_clang = times_clang t @ [durationMs (clang b)]\<rparr> w')"

text \<open>
  The measured loop of \<^verbatim>\<open>benchBufferOps\<close>, \<^verbatim>\<open>benchJSON\<close>, \<^verbatim>\<open>benchFSRead\<close>,
  \<^verbatim>\<open>benchURLParsing\<close>, \<^verbatim>\<open>benchZlib\<close>, \<^verbatim>\<open>benchTextCodec\<close> and \<^verbatim>\<open>benchStreamPipe\<close>: the
  number printed by the process is pushed unless \<^verbatim>\<open>parseFloat\<close> gives \<^verbatim>\<open>NaN\<close>.
\<close>

definition push_parsed :: "'w env \<Rightarrow> double list \<Rightarrow> timed \<Rightarrow> double list" where
  "push_parsed E ts r =
     (case parseFloat E (trim E (stdout r)) of None \<Rightarrow> ts | Some v \<Rightarrow> ts @ [v])"

fun printed_loop :: "'w env \<Rightarrow> config \<Rightarrow> string list \<Rightarrow> nat \<Rightarrow> times \<Rightarrow> 'w \<Rightarrow> times \<times> 'w" where
  "printed_loop E C args 0 t w = (t, w)"
| "printed_loop E C args (Suc n) t w =
     (let (b, w') = runBothTimed E C w args []
      in printed_loop E C args n
           \<lparr>times_msvc = push_parsed E (times_msvc t) (msvc b),
            times_clang = push_parsed E (times_clang t) (clang b)\<rparr> w')"

text \<open>One row of the report, as the benchmark functions build it.\<close>

record bench_result =
  r_name :: string
  r_msvc :: jsnum
  r_clang :: jsnum
  r_msvcFmt :: string
  r_clangFmt :: string
  r_msvcStd :: "string option"
  r_clangStd :: "string option"
  r_diff :: string
  r_winner :: string
  r_unit :: string
  r_lowerIsBetter :: bool

definition startup_samples :: "'w env \<Rightarrow> config \<Rightarrow> 'w \<Rightarrow> times \<times> 'w" where
  "startup_samples E C w =
     duration_loop E C [''-e'', ''0''] ITERATIONS \<lparr>times_msvc = [], times_clang = []\<rparr>
       (warmup_loop E C [''-e'', ''0''] WARMUP w)"

definition benchStartupTime ::
  "(real \<Rightarrow> string) \<Rightarrow> 'w env \<Rightarrow> config \<Rightarrow> 'w \<Rightarrow> bench_result \<times> 'w" where
  "benchStartupTime big E C w =
     (let (t, w') = startup_samples E C w;
          msvcMed = median (times_msvc t);
          clangMed = median (times_clang t)
      in (\<lparr>r_name = ''Startup Time (node -e \"0\")'',
           r_msvc = msvcMed,
           r_clang = clangMed,
           r_msvcFmt = formatMs big msvcMed,
           r_clangFmt = formatMs big clangMed,
           r_msvcStd = Some (formatMs big (stddev (times_msvc t))),
           r_clangStd = Some (formatMs big (stddev (times_clang t))),
           r_diff = pctDiff big msvcMed clangMed,
           r_winner = winner msvcMed clangMed True (stddev (times_msvc t)) (stddev (times_clang t)),
           r_unit = ''ms'',
           r_lowerIsBetter = True\<rparr>, w'))"

section \<open>The summary of \<^verbatim>\<open>main\<close>\<close>

record tally =
  msvcWins :: nat
  clangWins :: nat
  ties :: nat
  msvcAdvantage :: jsnum
  clangAdvantage :: jsnum

definition pct_of :: "bench_result \<Rightarrow> jsnum" where
  "pct_of r =
     (if js_gt (r_msvc r) (Num (D 0))
      then js_abs (js_mul (js_div (js_sub (r_clang r) (r_msvc r)) (r_msvc r)) (Num (D 100)))
      else Num (D 0))"

definition tally_step :: "tally \<Rightarrow> bench_result \<Rightarrow> tally" where
  "tally_step t r =
     (let pct = pct_of r
      in if r_winner r = ''MSVC''
         then t\<lparr>msvcWins := msvcWins t + 1, msvcAdvantage := js_add (msvcAdvantage t) pct\<rparr>
         else if r_winner r = ''ClangCL''
         then t\<lparr>clangWins := clangWins t + 1, clangAdvantage := js_add (clangAdvantage t) pct\<rparr>
         else t\<lparr>ties := ties t + 1\<rparr>)"

definition tally_all :: "bench_result list \<Rightarrow> tally" where
  "tally_all allResults =
     foldl tally_step
       \<lparr>msvcWins = 0, clangWins = 0, ties = 0,
        msvcAdvantage = Num (D 0), clangAdvantage = Num (D 0)\<rparr>
       allResults"

definition totalAdv :: "tally \<Rightarrow> jsnum" where
  "totalAdv t = js_add (msvcAdvantage t) (clangAdvantage t)"

definition msvcShare :: "(real \<Rightarrow> string) \<Rightarrow> tally \<Rightarrow> string" where
  "msvcShare big t =
     (if js_gt (totalAdv t) (Num (D 0))
      then toFixed big 1 (js_mul (js_div (msvcAdvantage t) (totalAdv t)) (Num (D 100)))
      else ''50.0'')"

definition clangShare :: "(real \<Rightarrow> string) \<Rightarrow> tally \<Rightarrow> string" where
  "clangShare big t =
     (if js_gt (totalAdv t) (Num (D 0))
      then toFixed big 1 (js_mul (js_div (clangAdvantage t) (totalAdv t)) (Num (D 100)))
      else ''50.0'')"

definition overallWinner :: "tally \<Rightarrow> string" where
  "overallWinner t =
     (if js_gt (msvcAdvantage t) (clangAdvantage t) then ''MSVC''
      else if js_gt (clangAdvantage t) (msvcAdvantage t) then ''ClangCL''
      else ''Tie'')"

section \<open>Start of the script\<close>

text \<open>
  The file system maps a path to \<open>Some x\<close> when something exists there, \<open>x\<close> telling
  whether it can be executed; \<^verbatim>\<open>fs.existsSync\<close> only looks at the first. \<^verbatim>\<open>path.resolve\<close>
  is the parameter \<open>resolve\<close>. The script either leaves through \<^verbatim>\<open>process.exit\<close> with what
  it wrote to \<^verbatim>\<open>stderr\<close>, or goes on with the two resolved paths.
\<close>

type_synonym filesystem = "string \<Rightarrow> bool option"

definition existsSync :: "filesystem \<Rightarrow> string \<Rightarrow> bool" where
  "existsSync fs p = (fs p \<noteq> None)"

datatype startup = Exit int "string list" | Proceed config

definition usage :: string where
  "usage = ''Usage: node benchmark_compare.js <path-to-msvc-binary> <path-to-clang-binary>''"

definition validate :: "(string \<Rightarrow> string) \<Rightarrow> filesystem \<Rightarrow> string list \<Rightarrow> startup" where
  "validate resolve fs args =
     (if length args \<noteq> 2 then Exit 1 [usage]
      else let m = resolve (args ! 0);
               c = resolve (args ! 1)
           in if \<not> existsSync fs m then Exit 1 [''MSVC binary not found: '' @ m]
              else if \<not> existsSync fs c then Exit 1 [''ClangCL binary not found: '' @ c]
              else Proceed \<lparr>MSVC_BIN = m, CLANG_BIN = c\<rparr>)"

text \<open>
  \<^verbatim>\<open>main().catch(console.error)\<close>: \<^verbatim>\<open>main\<close> is \<^verbatim>\<open>async\<close>, so whatever is thrown inside it
  rejects its promise; the handler prints the error and the process ends with status 0.
  The body of \<^verbatim>\<open>main\<close> is the parameter \<open>body\<close>: \<open>Inl e\<close> when it throws \<open>e\<close>.
\<close>

definition script ::
  "(string \<Rightarrow> string) \<Rightarrow> filesystem \<Rightarrow> (config \<Rightarrow> string + unit) \<Rightarrow> string list \<Rightarrow> int \<times> string list" where
  "script resolve fs body args =
     (case validate resolve fs args of
        Exit code err \<Rightarrow> (code, err)
      | Proceed C \<Rightarrow> (case body C of Inl e \<Rightarrow> (0, [e]) | Inr _ \<Rightarrow> (0, [])))"

section \<open>Notions of the specification\<close>

text \<open>
  These definitions follow the wording of the specification, not the code; the theorems
  compare the code with them. \<open>js_sum\<close> adds numbers one after the other, starting from
  zero. The weighted advantage of a label is the sum, in the order of the rows, of the
  percentage gaps of the rows that carry it. \<open>example_row\<close> is a row for the examples,
  filled in the way the benchmark functions fill theirs, with the default noise figures.
\<close>

definition js_sum :: "jsnum list \<Rightarrow> jsnum" where
  "js_sum xs = foldl js_add (Num (D 0)) xs"

definition advantage :: "string \<Rightarrow> bench_result list \<Rightarrow> jsnum" where
  "advantage w rs = js_sum (map pct_of (filter (\<lambda>r. r_winner r = w) rs))"

definition example_row :: "jsnum \<Rightarrow> jsnum \<Rightarrow> bench_result" where
  "example_row a b =
     \<lparr>r_name = ''example'',
      r_msvc = a,
      r_clang = b,
      r_msvcFmt = formatMs (\<lambda>x. []) a,
      r_clangFmt = formatMs (\<lambda>x. []) b,
      r_msvcStd = None,
      r_clangStd = None,
      r_diff = pctDiff (\<lambda>x. []) a b,
      r_winner = winner a b True (Num (D 0)) (Num (D 0)),
      r_unit = ''ms'',
      r_lowerIsBetter = True\<rparr>"

text \<open>
  \<open>percent_value\<close> is the percentage difference of the specification, in double
  arithmetic, with candidate A's value as the baseline. \<open>two_places\<close> is a non-negative number
  with two decimal places: the nearest such decimal, the larger one on a tie.
  \<open>half_sum\<close> is the mean of two doubles as double arithmetic yields it: the sum is
  rounded to the nearest double, or is an infinity, before it is halved. \<open>js_le\<close> is the
  order of the numbers; \<^verbatim>\<open>NaN\<close> is comparable with nothing.
\<close>

definition percent_value :: "jsnum \<Rightarrow> jsnum \<Rightarrow> jsnum" where
  "percent_value a b = js_mul (js_div (js_sub b a) a) (Num (D 100))"

definition two_places :: "real \<Rightarrow> string" where
  "two_places x =
     (let n = nat \<lfloor>x * 100 + 1 / 2\<rfloor>
      in digits (n div 100) @ ''.'' @ [digit_char (n div 10 mod 10), digit_char (n mod 10)])"

definition half_sum :: "double \<Rightarrow> double \<Rightarrow> jsnum" where
  "half_sum a b =
     (let s = rd (val a + val b)
      in if \<bar>s\<bar> < 2 ^ 1024 then Num (D (s / 2)) else if 0 < s then PInf else NInf)"

fun js_le :: "jsnum \<Rightarrow> jsnum \<Rightarrow> bool" where
  "js_le (Num x) (Num y) = (x \<le> y)"
| "js_le NaN _ = False"
| "js_le _ NaN = False"
| "js_le NInf _ = True"
| "js_le _ PInf = True"
| "js_le _ NInf = False"
| "js_le PInf _ = False"

section \<open>Environments for the examples\<close>

text \<open>
  In \<open>timeout_env\<close> the world is the clock: every process is killed at the timeout, 60000 ms
  after its start, with no output and no exit status, so that \<open>runTimed\<close> returns
  \<open>timed_out\<close>. In \<open>echo_env\<close> the world is the next value of \<^verbatim>\<open>Math.random\<close>, and every
  process prints the path of its own binary.
\<close>

definition timeout_env :: "int env" where
  "timeout_env =
     \<lparr>spawnSync = (\<lambda>w bin args options.
        (\<lparr>sp_stdout = Some [], sp_stderr = Some [], sp_status = None, sp_timedOut = True\<rparr>,
         w + 60000 * 10 ^ 6)),
      hrtime = (\<lambda>w. w),
      random = (\<lambda>w. (1 / 4, w)),
      parseFloat = (\<lambda>s. if s = ''12.5'' then Some (D 12.5) else None),
      trim = (\<lambda>s. s)\<rparr>"

definition timed_out :: timed where
  "timed_out = \<lparr>durationMs = D 60000, stdout = [], stderr = [], status = None\<rparr>"

definition echo_env :: "real env" where
  "echo_env =
     \<lparr>spawnSync = (\<lambda>w bin args options.
        (\<lparr>sp_stdout = Some bin, sp_stderr = Some [], sp_status = Some 0, sp_timedOut = False\<rparr>, w)),
      hrtime = (\<lambda>w. 0),
      random = (\<lambda>w. (w, w)),
      parseFloat = (\<lambda>s. None),
      trim = (\<lambda>s. s)\<rparr>"

definition example_config :: config where
  "example_config = \<lparr>MSVC_BIN = ''node_msvc.exe'', CLANG_BIN = ''node_clangcl.exe''\<rparr>"

section \<open>Properties of the rounding\<close>

subsection \<open>Powers of two\<close>

lemma p2_pos [simp]: "0 < (2::real) powi k"
  by simp

lemma p2_less_iff: "(2::real) powi a < 2 powi b \<longleftrightarrow> a < b"
proof
  assume "(2::real) powi a < 2 powi b"
  show "a < b"
  proof (rule ccontr)
    assume "\<not> a < b"
    then have "b \<le> a" by simp
    then have "(2::real) powi b \<le> 2 powi a"
      by (rule power_int_increasing) simp
    with \<open>(2::real) powi a < 2 powi b\<close> show False by simp
  qed
next
  assume "a < b"
  then show "(2::real) powi a < 2 powi b"
    by (rule power_int_strict_increasing) simp
qed

lemma p2_le_iff: "(2::real) powi a \<le> 2 powi b \<longleftrightarrow> a \<le> b"
  using p2_less_iff [of b a] by (auto simp: not_less [symmetric])

lemma p2_add: "(2::real) powi (a + b) = 2 powi a * 2 powi b"
  by (rule power_int_add) simp

lemma p2_diff: "(2::real) powi (a - b) = 2 powi a / 2 powi b"
  by (rule power_int_diff) simp

lemma p2_Suc: "(2::real) powi (a + 1) = 2 * 2 powi a"
  by (simp add: p2_add)

subsection \<open>The exponent\<close>

lemma ilog2_bounds: "0 < n \<Longrightarrow> 2 ^ ilog2 n \<le> n \<and> n < 2 ^ Suc (ilog2 n)"
proof (induction n rule: ilog2.induct)
  case (1 n)
  show ?case
  proof (cases "n < 2")
    case True
    with "1.prems" have "n = 1" by simp
    then show ?thesis by (simp add: ilog2.simps)
  next
    case False
    then have pos: "0 < n div 2" by simp
    from "1.IH" [OF False pos]
    have lo: "2 ^ ilog2 (n div 2) \<le> n div 2" and hi: "n div 2 < 2 ^ Suc (ilog2 (n div 2))"
      by simp_all
    have eq: "ilog2 n = Suc (ilog2 (n div 2))"
      using False by (subst ilog2.simps) simp
    have "2 * 2 ^ ilog2 (n div 2) \<le> 2 * (n div 2)" using lo by simp
    also have "\<dots> \<le> n" by simp
    finally have A: "2 ^ ilog2 n \<le> n" by (simp add: eq)
    have "n < 2 * (n div 2) + 2" by linarith
    also have "\<dots> \<le> 2 * 2 ^ Suc (ilog2 (n div 2))" using hi by simp
    finally have B: "n < 2 ^ Suc (ilog2 n)" by (simp add: eq)
    from A B show ?thesis by simp
  qed
qed

lemma expo_bounds:
  assumes "x \<noteq> 0"
  shows "2 powi expo x \<le> \<bar>x\<bar>" and "\<bar>x\<bar> < 2 powi (expo x + 1)"
proof -
  have "2 powi expo x \<le> \<bar>x\<bar> \<and> \<bar>x\<bar> < 2 powi (expo x + 1)"
  proof (cases "1 \<le> \<bar>x\<bar>")
    case True
    define n where "n = nat \<lfloor>\<bar>x\<bar>\<rfloor>"
    have n1: "0 < n" using True by (simp add: n_def)
    have nx: "real n \<le> \<bar>x\<bar>" "\<bar>x\<bar> < real n + 1"
      unfolding n_def using True by (simp_all add: of_nat_nat)
    have e: "expo x = int (ilog2 n)" using True by (simp add: expo_def n_def)
    from ilog2_bounds [OF n1] have lo: "2 ^ ilog2 n \<le> n" and hi: "n < 2 ^ Suc (ilog2 n)" by simp_all
    have r: "(2::real) ^ ilog2 n \<le> real n" using lo by (metis of_nat_le_iff of_nat_numeral of_nat_power)
    have A: "2 powi expo x \<le> \<bar>x\<bar>"
      unfolding e power_int_of_nat using r nx(1) by (rule order_trans)
    have "n + 1 \<le> 2 ^ Suc (ilog2 n)" using hi by simp
    then have "real (n + 1) \<le> 2 ^ Suc (ilog2 n)" by (metis of_nat_le_iff of_nat_numeral of_nat_power)
    then have r2: "real n + 1 \<le> 2 * 2 ^ ilog2 n" by simp
    have "(2::real) powi (expo x + 1) = 2 * 2 ^ ilog2 n" by (simp add: e p2_Suc)
    with r2 nx(2) have B: "\<bar>x\<bar> < 2 powi (expo x + 1)" by linarith
    from A B show ?thesis by simp
  next
    case False
    define y where "y = 1 / \<bar>x\<bar>"
    have xp: "0 < \<bar>x\<bar>" using assms by simp
    have y1: "1 < y" using False xp by (simp add: y_def)
    define N where "N = nat \<lceil>y\<rceil>"
    have N2: "2 \<le> N" using y1 unfolding N_def by linarith
    have Ny: "y \<le> real N" "real N - 1 < y"
      unfolding N_def using y1 by (simp_all add: of_nat_nat) linarith+
    define j where "j = Suc (ilog2 (N - 1))"
    have e: "expo x = - int j" using False by (simp add: expo_def j_def N_def y_def)
    have "0 < N - 1" using N2 by simp
    from ilog2_bounds [OF this] have lo: "2 ^ (j - 1) \<le> N - 1" and hi: "N - 1 < 2 ^ j"
      by (simp_all add: j_def)
    have "N \<le> 2 ^ j" using hi by simp
    then have "real N \<le> 2 ^ j" by (metis of_nat_le_iff of_nat_numeral of_nat_power)
    with Ny(1) have yj: "y \<le> 2 ^ j" by linarith
    have "real (2 ^ (j - 1)) \<le> real (N - 1)" using lo by (simp only: of_nat_le_iff)
    moreover have "real (N - 1) = real N - 1" using N2 by (simp add: of_nat_diff)
    moreover have "real (2 ^ (j - 1)) = 2 ^ (j - 1)" by simp
    ultimately have "(2::real) ^ (j - 1) \<le> real N - 1" by linarith
    with Ny(2) have jy: "(2::real) ^ (j - 1) < y" by linarith
    have A: "2 powi expo x \<le> \<bar>x\<bar>"
    proof -
      have "1 / 2 ^ j \<le> 1 / y" using yj y1 by (simp add: frac_le)
      then show ?thesis using xp by (simp add: e power_int_minus_divide y_def)
    qed
    have B: "\<bar>x\<bar> < 2 powi (expo x + 1)"
    proof -
      have "1 / y < 1 / 2 ^ (j - 1)" using jy by (simp add: frac_less2)
      moreover have "(2::real) powi (- int j + 1) = 1 / 2 ^ (j - 1)"
      proof -
        have "- int j + 1 = - int (j - 1)" by (simp add: j_def)
        then show ?thesis by (simp only: power_int_minus_divide power_int_of_nat)
      qed
      ultimately show ?thesis using xp by (simp add: e y_def)
    qed
    from A B show ?thesis by simp
  qed
  then show "2 powi expo x \<le> \<bar>x\<bar>" and "\<bar>x\<bar> < 2 powi (expo x + 1)" by simp_all
qed

lemma expo_unique:
  assumes "2 powi k \<le> \<bar>x\<bar>" "\<bar>x\<bar> < 2 powi (k + 1)"
  shows "expo x = k"
proof -
  have "0 < (2::real) powi k" by simp
  with assms(1) have "0 < \<bar>x\<bar>" by linarith
  then have "x \<noteq> 0" by simp
  note b = expo_bounds [OF this]
  have "(2::real) powi k < 2 powi (expo x + 1)" using assms(1) b(2) by simp
  then have "k < expo x + 1" by (simp add: p2_less_iff)
  moreover have "(2::real) powi expo x < 2 powi (k + 1)" using assms(2) b(1) by simp
  then have "expo x < k + 1" by (simp add: p2_less_iff)
  ultimately show ?thesis by simp
qed

subsection \<open>Rounding to the nearest integer, ties to even\<close>

lemma rne_of_int [simp]: "rne (of_int n) = n"
  by (simp add: rne_def)

lemma rne_floor: "\<lfloor>q\<rfloor> \<le> rne q" "rne q \<le> \<lfloor>q\<rfloor> + 1"
  by (simp_all add: rne_def Let_def)

lemma rne_cases:
  obtains "q - of_int \<lfloor>q\<rfloor> < 1 / 2" "rne q = \<lfloor>q\<rfloor>"
  | "1 / 2 < q - of_int \<lfloor>q\<rfloor>" "rne q = \<lfloor>q\<rfloor> + 1"
  | "q - of_int \<lfloor>q\<rfloor> = 1 / 2" "even \<lfloor>q\<rfloor>" "rne q = \<lfloor>q\<rfloor>"
  | "q - of_int \<lfloor>q\<rfloor> = 1 / 2" "odd \<lfloor>q\<rfloor>" "rne q = \<lfloor>q\<rfloor> + 1"
  unfolding rne_def Let_def by (cases "q - of_int \<lfloor>q\<rfloor> < 1 / 2"; cases "1 / 2 < q - of_int \<lfloor>q\<rfloor>"; cases "even \<lfloor>q\<rfloor>"; force)

lemma rne_error: "\<bar>of_int (rne q) - q\<bar> \<le> 1 / 2"
proof -
  have r: "0 \<le> q - of_int \<lfloor>q\<rfloor>" "q - of_int \<lfloor>q\<rfloor> < 1" by linarith+
  show ?thesis
  proof (cases q rule: rne_cases)
    case 1
    with r show ?thesis by simp
  next
    case 2
    with r show ?thesis by simp
  next
    case 3
    with r show ?thesis by simp
  next
    case 4
    with r show ?thesis by simp
  qed
qed

lemma rne_mono: "q \<le> q' \<Longrightarrow> rne q \<le> rne q'"
proof -
  assume le: "q \<le> q'"
  then have fl: "\<lfloor>q\<rfloor> \<le> \<lfloor>q'\<rfloor>" by (rule floor_mono)
  show ?thesis
  proof (cases "\<lfloor>q\<rfloor> = \<lfloor>q'\<rfloor>")
    case True
    then show ?thesis using le by (auto simp add: rne_def Let_def)
  next
    case False
    with fl have "\<lfloor>q\<rfloor> + 1 \<le> \<lfloor>q'\<rfloor>" by simp
    with rne_floor(2) [of q] rne_floor(1) [of q'] show ?thesis by linarith
  qed
qed

lemma rne_minus: "rne (- q) = - rne q"
proof (cases "q = of_int \<lfloor>q\<rfloor>")
  case True
  then obtain n where "q = of_int n" ..
  then show ?thesis by (simp flip: of_int_minus)
next
  case False
  then have f: "\<lfloor>- q\<rfloor> = - \<lfloor>q\<rfloor> - 1"
    by (simp add: floor_minus ceiling_altdef)
  show ?thesis
    unfolding rne_def Let_def f by (auto simp add: algebra_simps)
qed

subsection \<open>Rounding to the nearest double\<close>

lemma expo_minus [simp]: "expo (- x) = expo x"
  by (simp add: expo_def)

lemma quantum_minus [simp]: "quantum (- x) = quantum x"
  by (simp add: quantum_def)

lemma rd_0 [simp]: "rd 0 = 0"
  by (simp add: rd_def)

lemma rd_minus: "rd (- x) = - rd x"
  by (simp add: rd_def rne_minus)

lemma quantum_ge: "- 1074 \<le> quantum x" "expo x - 52 \<le> quantum x"
  by (simp_all add: quantum_def)

lemma p2_split: "q \<le> e \<Longrightarrow> (2::real) powi e = 2 ^ nat (e - q) * 2 powi q"
proof -
  assume "q \<le> e"
  then have "(2::real) powi (e - q) = 2 ^ nat (e - q)"
    by (simp add: power_int_nonneg_exp)
  moreover have "(2::real) powi e = 2 powi (e - q) * 2 powi q"
    using p2_add [of "e - q" q] by simp
  ultimately show ?thesis by simp
qed

lemma rd_on_grid:
  assumes "quantum x \<le> e" and that: "x = of_int m * 2 powi e"
  shows "rd (of_int m * 2 powi e) = of_int m * 2 powi e"
proof (cases "x = 0")
  case True
  with that show ?thesis by simp
next
  case False
  define q where "q = quantum x"
  define d where "d = nat (e - q)"
  have e: "(2::real) powi e = 2 ^ d * 2 powi q"
    using p2_split [OF assms(1)] by (simp add: q_def d_def)
  have x: "x = of_int (m * 2 ^ d) * 2 powi q"
    by (simp add: that e)
  have "x / 2 powi q = of_int (m * 2 ^ d)"
    unfolding x by simp
  then have "rne (x / 2 powi q) = m * 2 ^ d"
    by (simp only: rne_of_int)
  then have "rd x = of_int (m * 2 ^ d) * 2 powi q"
    using False by (simp add: rd_def q_def)
  then have "rd x = x" using x by simp
  then show ?thesis using that by simp
qed

lemma rd_fix:
  assumes "\<bar>m\<bar> < 2 ^ 53" "- 1074 \<le> e"
  shows "rd (of_int m * 2 powi e) = of_int m * 2 powi e"
proof (cases "m = 0")
  case True
  then show ?thesis by simp
next
  case False
  define x :: real where "x = of_int m * 2 powi e"
  have x0: "x \<noteq> 0" using False by (simp add: x_def)
  have "\<bar>of_int m :: real\<bar> < 2 ^ 53"
    using assms(1) by (metis of_int_abs of_int_less_iff of_int_numeral of_int_power)
  then have "\<bar>x\<bar> < 2 ^ 53 * 2 powi e"
    by (simp add: x_def abs_mult)
  also have "\<dots> = 2 powi (53 + e)" by (simp add: p2_add)
  finally have "(2::real) powi expo x < 2 powi (53 + e)"
    using expo_bounds(1) [OF x0] by simp
  then have "expo x < 53 + e" by (simp add: p2_less_iff)
  with assms(2) have "quantum x \<le> e" by (simp add: quantum_def)
  from rd_on_grid [OF this x_def] show ?thesis .
qed

subsection \<open>The result of rounding is a double\<close>

lemma scaled_abs_less:
  assumes "x \<noteq> 0"
  shows "\<bar>x / 2 powi quantum x\<bar> < 2 ^ 53"
proof -
  have "expo x + 1 \<le> quantum x + 53" using quantum_ge(2) [of x] by simp
  then have "(2::real) powi (expo x + 1) \<le> 2 powi (quantum x + 53)" by (simp add: p2_le_iff)
  with expo_bounds(2) [OF assms] have "\<bar>x\<bar> < 2 powi (quantum x + 53)" by linarith
  also have "\<dots> = 2 powi quantum x * 2 ^ 53" by (simp add: p2_add)
  finally have "\<bar>x\<bar> / 2 powi quantum x < 2 ^ 53"
    by (simp add: pos_divide_less_eq mult.commute)
  then show ?thesis by (simp add: abs_divide)
qed

lemma rne_abs_le:
  assumes "\<bar>q\<bar> < 2 ^ 53"
  shows "\<bar>rne q\<bar> \<le> 2 ^ 53"
proof -
  have "q \<le> of_int (2 ^ 53)" "of_int (- (2 ^ 53)) \<le> q" using assms by simp_all
  from rne_mono [OF this(1)] rne_mono [OF this(2)]
  have "rne q \<le> 2 ^ 53" "- (2 ^ 53) \<le> rne q" by (simp_all only: rne_of_int)
  then show ?thesis by simp
qed

lemma rd_unbounded:
  "\<exists>m e. rd x = of_int m * 2 powi e \<and> \<bar>m\<bar> < 2 ^ 53 \<and> - 1074 \<le> e"
proof (cases "x = 0")
  case True
  have "rd x = of_int 0 * 2 powi 0" using True by simp
  then show ?thesis by (metis abs_zero zero_less_numeral zero_less_power neg_numeral_le_zero)
next
  case False
  define n where "n = rne (x / 2 powi quantum x)"
  have r: "rd x = of_int n * 2 powi quantum x" using False by (simp add: rd_def n_def)
  have n: "\<bar>n\<bar> \<le> 2 ^ 53" unfolding n_def by (rule rne_abs_le [OF scaled_abs_less [OF False]])
  show ?thesis
  proof (cases "\<bar>n\<bar> < 2 ^ 53")
    case True
    with r quantum_ge(1) [of x] show ?thesis by blast
  next
    case False
    with n have "\<bar>n\<bar> = 2 ^ 53" by simp
    then have c: "n = 9007199254740992 \<or> n = - 9007199254740992" by (simp add: abs_if split: if_splits)
    then have "n = 2 * (n div 2)" "\<bar>n div 2\<bar> < 2 ^ 53" by auto
    then have "rd x = of_int (n div 2) * 2 powi (quantum x + 1)"
      using r by (simp add: p2_Suc)
    moreover have "- 1074 \<le> quantum x + 1" using quantum_ge(1) [of x] by simp
    ultimately show ?thesis using \<open>\<bar>n div 2\<bar> < 2 ^ 53\<close> by blast
  qed
qed

lemma rd_idem [simp]: "rd (rd x) = rd x"
  using rd_unbounded [of x] rd_fix by auto

lemma is_double_bound: "is_double x \<Longrightarrow> \<bar>x\<bar> < 2 ^ 1024"
proof -
  assume "is_double x"
  then obtain m e where x: "x = of_int m * 2 powi e" and m: "\<bar>m\<bar> < 2 ^ 53" and e: "e \<le> 971"
    by (auto simp: is_double_def)
  have "\<bar>of_int m :: real\<bar> < 2 ^ 53"
    using m by (metis of_int_abs of_int_less_iff of_int_numeral of_int_power)
  then have "\<bar>x\<bar> < 2 ^ 53 * 2 powi e" by (simp add: x abs_mult)
  also have "\<dots> = 2 powi (53 + e)" by (simp add: p2_add)
  also have "\<dots> \<le> 2 powi 1024" using e by (subst p2_le_iff) simp
  also have "(2::real) powi 1024 = 2 ^ 1024" by simp
  finally show ?thesis .
qed

lemma is_double_fix: "is_double x \<Longrightarrow> rd x = x"
  by (auto simp: is_double_def rd_fix)

lemma rd_is_double:
  assumes "\<bar>rd x\<bar> < 2 ^ 1024"
  shows "is_double (rd x)"
proof -
  from rd_unbounded [of x] obtain m e
    where r: "rd x = of_int m * 2 powi e" and m: "\<bar>m\<bar> < 2 ^ 53" and e: "- 1074 \<le> e" by blast
  show ?thesis
  proof (cases "e \<le> 971")
    case True
    with r m e show ?thesis unfolding is_double_def by blast
  next
    case False
    define d where "d = nat (e - 971)"
    have pe: "(2::real) powi e = 2 ^ d * 2 powi 971"
      using p2_split [of 971 e] False by (simp add: d_def)
    have r': "rd x = of_int (m * 2 ^ d) * 2 powi 971"
      by (simp add: r pe)
    have "\<bar>of_int (m * 2 ^ d) :: real\<bar> * 2 powi 971 < 2 ^ 1024"
      using assms unfolding r' by (simp add: abs_mult)
    also have "(2::real) ^ 1024 = 2 ^ 53 * 2 powi 971" by simp
    finally have "\<bar>of_int (m * 2 ^ d) :: real\<bar> < 2 ^ 53" by simp
    then have "\<bar>m * 2 ^ d\<bar> < 2 ^ 53"
      by (metis of_int_abs of_int_less_iff of_int_numeral of_int_power)
    with r' show ?thesis unfolding is_double_def by (metis neg_numeral_le_numeral order_refl)
  qed
qed

subsection \<open>Rounding is monotone\<close>

lemma rd_grid:
  assumes "x \<noteq> 0"
  shows "of_int j * 2 powi quantum x \<le> x \<Longrightarrow> of_int j * 2 powi quantum x \<le> rd x"
    and "x \<le> of_int j * 2 powi quantum x \<Longrightarrow> rd x \<le> of_int j * 2 powi quantum x"
proof -
  let ?p = "(2::real) powi quantum x"
  have r: "rd x = of_int (rne (x / ?p)) * ?p" using assms by (simp add: rd_def)
  {
    assume "of_int j * ?p \<le> x"
    then have "of_int j \<le> x / ?p" by (simp add: pos_le_divide_eq)
    from rne_mono [OF this] have "j \<le> rne (x / ?p)" by (simp only: rne_of_int)
    then have "(of_int j :: real) \<le> of_int (rne (x / ?p))" by (simp only: of_int_le_iff)
    then show "of_int j * ?p \<le> rd x" unfolding r by (simp add: mult_right_mono)
  }
  {
    assume "x \<le> of_int j * ?p"
    then have "x / ?p \<le> of_int j" by (simp add: pos_divide_le_eq)
    from rne_mono [OF this] have "rne (x / ?p) \<le> j" by (simp only: rne_of_int)
    then have "(of_int (rne (x / ?p)) :: real) \<le> of_int j" by (simp only: of_int_le_iff)
    then show "rd x \<le> of_int j * ?p" unfolding r by (simp add: mult_right_mono)
  }
qed

lemma rd_nonneg: "0 \<le> x \<Longrightarrow> 0 \<le> rd x"
  using rd_grid(1) [of x 0] by (cases "x = 0") simp_all

lemma expo_mono:
  assumes "x \<noteq> 0" "\<bar>x\<bar> \<le> \<bar>y\<bar>"
  shows "expo x \<le> expo y"
proof -
  have y: "y \<noteq> 0" using assms by auto
  have "(2::real) powi expo x < 2 powi (expo y + 1)"
    using expo_bounds(1) [OF assms(1)] expo_bounds(2) [OF y] assms(2) by linarith
  then show ?thesis by (simp add: p2_less_iff)
qed

lemma rd_mono_pos:
  assumes "0 < x" "x \<le> y"
  shows "rd x \<le> rd y"
proof -
  have x0: "x \<noteq> 0" and y0: "y \<noteq> 0" using assms by auto
  have ee: "expo x \<le> expo y" using assms by (intro expo_mono) auto
  then have qq: "quantum x \<le> quantum y" by (simp add: quantum_def)
  show ?thesis
  proof (cases "quantum x = quantum y")
    case True
    let ?p = "(2::real) powi quantum y"
    have "x / ?p \<le> y / ?p" using assms by (simp add: divide_right_mono)
    from rne_mono [OF this]
    have "(of_int (rne (x / ?p)) :: real) \<le> of_int (rne (y / ?p))" by (simp only: of_int_le_iff)
    then have "of_int (rne (x / ?p)) * ?p \<le> of_int (rne (y / ?p)) * ?p"
      by (simp add: mult_right_mono)
    then show ?thesis using x0 y0 True by (simp add: rd_def)
  next
    case False
    with qq have lt: "quantum x < quantum y" by simp
    then have qy: "quantum y = expo y - 52" using quantum_ge(1) [of x] unfolding quantum_def by linarith
    have ex: "expo x < expo y" using lt qy quantum_ge(2) [of x] by simp
    define g :: real where "g = 2 powi expo y"
    have gy: "g = of_int (2 ^ 52) * 2 powi quantum y"
      using p2_split [of "quantum y" "expo y"] by (simp add: g_def qy)
    have "quantum x \<le> expo y" using lt qy by simp
    from p2_split [OF this]
    have gx: "g = of_int (2 ^ nat (expo y - quantum x)) * 2 powi quantum x"
      by (simp add: g_def)
    have "g \<le> \<bar>y\<bar>" unfolding g_def by (rule expo_bounds(1) [OF y0])
    then have "g \<le> y" using assms by simp
    then have A: "g \<le> rd y" unfolding gy by (rule rd_grid(1) [OF y0])
    have "expo x + 1 \<le> expo y" using ex by simp
    then have "(2::real) powi (expo x + 1) \<le> g" by (simp add: g_def p2_le_iff)
    with expo_bounds(2) [OF x0] assms have "x \<le> g" by simp
    then have B: "rd x \<le> g" unfolding gx by (rule rd_grid(2) [OF x0])
    from A B show ?thesis by simp
  qed
qed

lemma rd_mono: "x \<le> y \<Longrightarrow> rd x \<le> rd y"
proof -
  assume le: "x \<le> y"
  consider "0 < x" | "x \<le> 0" "0 \<le> y" | "y < 0" by linarith
  then show ?thesis
  proof cases
    case 1
    then show ?thesis using le by (rule rd_mono_pos)
  next
    case 2
    from rd_nonneg [of "- x"] 2 have "rd x \<le> 0" by (simp add: rd_minus)
    with rd_nonneg [OF 2(2)] show ?thesis by simp
  next
    case 3
    then have "0 < - y" "- y \<le> - x" using le by simp_all
    from rd_mono_pos [OF this] show ?thesis by (simp add: rd_minus)
  qed
qed

lemma rd_between:
  assumes "is_double lo" "is_double hi" "lo \<le> x" "x \<le> hi"
  shows "lo \<le> rd x" "rd x \<le> hi" "is_double (rd x)"
proof -
  show lo: "lo \<le> rd x" using rd_mono [OF assms(3)] is_double_fix [OF assms(1)] by simp
  show hi: "rd x \<le> hi" using rd_mono [OF assms(4)] is_double_fix [OF assms(2)] by simp
  from lo hi is_double_bound [OF assms(1)] is_double_bound [OF assms(2)]
  have "\<bar>rd x\<bar> < 2 ^ 1024" by linarith
  then show "is_double (rd x)" by (rule rd_is_double)
qed

subsection \<open>The type of doubles\<close>

lemma is_double_0 [simp]: "is_double 0"
  unfolding is_double_def by (rule exI [of _ 0], rule exI [of _ 0]) simp

lemma is_double_neg: "is_double x \<Longrightarrow> is_double (- x)"
proof -
  assume "is_double x"
  then obtain m e where "x = of_int m * 2 powi e" "\<bar>m\<bar> < 2 ^ 53" "- 1074 \<le> e" "e \<le> 971"
    by (auto simp: is_double_def)
  then have "- x = of_int (- m) * 2 powi e \<and> \<bar>- m\<bar> < 2 ^ 53 \<and> - 1074 \<le> e \<and> e \<le> 971" by simp
  then show ?thesis unfolding is_double_def by blast
qed

lemma is_double_abs: "is_double x \<Longrightarrow> is_double \<bar>x\<bar>"
  by (simp add: abs_if is_double_neg)

lemma val_double [simp]: "is_double (val d)"
  using val [of d] by simp

lemma val_D: "\<bar>rd x\<bar> < 2 ^ 1024 \<Longrightarrow> val (D x) = rd x"
  by (simp add: D_def Abs_double_inverse rd_is_double)

lemma val_D_double: "is_double x \<Longrightarrow> val (D x) = x"
  using is_double_bound [of x] by (simp add: val_D is_double_fix)

lemma D_val [simp]: "D (val d) = d"
  by (simp add: val_inject [symmetric] val_D_double)

lemma val_bound: "\<bar>val d\<bar> < 2 ^ 1024"
  by (rule is_double_bound) simp

lemma rd_val [simp]: "rd (val d) = val d"
  by (rule is_double_fix) simp

lemma val_D_0 [simp]: "val (D 0) = 0"
  by (simp add: val_D_double)

subsection \<open>Evaluating the rounding\<close>

lemma rd_eval:
  assumes "2 powi k \<le> \<bar>x\<bar>" "\<bar>x\<bar> < 2 powi (k + 1)"
    and "q = max (k - 52) (- 1074)" and "rne (x / 2 powi q) = n"
  shows "rd x = of_int n * 2 powi q"
proof -
  have e: "expo x = k" using assms(1,2) by (rule expo_unique)
  have "0 < (2::real) powi k" by simp
  with assms(1) have "0 < \<bar>x\<bar>" by linarith
  then have "x \<noteq> 0" by simp
  then show ?thesis using assms(3,4) by (simp add: rd_def quantum_def e)
qed

lemma is_double_int: "\<bar>n\<bar> \<le> 2 ^ 53 \<Longrightarrow> is_double (of_int n)"
proof (cases "\<bar>n\<bar> < 2 ^ 53")
  case True
  have "(of_int n :: real) = of_int n * 2 powi 0" by simp
  with True show ?thesis unfolding is_double_def by (metis neg_numeral_le_zero zero_le_numeral)
next
  case False
  assume "\<bar>n\<bar> \<le> 2 ^ 53"
  with False have "n = 9007199254740992 \<or> n = - 9007199254740992" by (simp add: abs_if split: if_splits)
  then have "(of_int n :: real) = of_int (n div 2) * 2 powi 1" "\<bar>n div 2\<bar> < 2 ^ 53" by auto
  then show ?thesis unfolding is_double_def by (metis neg_numeral_le_numeral numeral_le_iff semiring_norm(68) one_le_numeral numeral_One)
qed

lemma is_double_dyadic:
  assumes "\<bar>m\<bar> < 2 ^ 53" "j \<le> 1074"
  shows "is_double (of_int m / 2 ^ j)"
proof -
  have "(of_int m / 2 ^ j :: real) = of_int m * 2 powi (- int j)"
    by (simp add: power_int_minus_divide)
  moreover have "- 1074 \<le> - int j" "- int j \<le> 971" using assms(2) by simp_all
  ultimately show ?thesis using assms(1) unfolding is_double_def by blast
qed

lemma fl_double: "is_double x \<Longrightarrow> fl x = Num (D x)"
  using is_double_bound [of x] by (simp add: fl_def is_double_fix)

lemma fl_val [simp]: "fl (val d) = Num d"
  by (simp add: fl_double)

lemma fl_0 [simp]: "fl 0 = Num (D 0)"
  by (simp add: fl_double)

section \<open>Literals\<close>

lemma is_double_numeral: "numeral k \<le> (2 ^ 53 :: int) \<Longrightarrow> is_double (numeral k)"
  using is_double_int [of "numeral k"] by simp

lemma val_D_numeral [simp]: "numeral k \<le> (2 ^ 53 :: int) \<Longrightarrow> val (D (numeral k)) = numeral k"
  by (simp add: val_D_double is_double_numeral)

lemma val_D_1 [simp]: "val (D 1) = 1"
  using is_double_int [of 1] by (simp add: val_D_double)

lemma val_D_minus_1 [simp]: "val (D (- 1)) = - 1"
  using is_double_int [of "- 1"] by (simp add: val_D_double)

lemma val_D_of_nat: "n \<le> 2 ^ 53 \<Longrightarrow> val (D (real n)) = real n"
  using is_double_int [of "int n"] by (simp add: val_D_double)

lemma fl_numeral [simp]: "numeral k \<le> (2 ^ 53 :: int) \<Longrightarrow> fl (numeral k) = Num (D (numeral k))"
  by (simp add: fl_double is_double_numeral)

lemma fl_1 [simp]: "fl 1 = Num (D 1)"
  using is_double_int [of 1] by (simp add: fl_double)

lemma is_double_half: "\<bar>m\<bar> < 2 ^ 53 \<Longrightarrow> is_double (of_int m / 2)"
  using is_double_dyadic [of m 1] by simp

lemma val_D_half [simp]: "numeral k < (2 ^ 53 :: int) \<Longrightarrow> val (D (numeral k / 2)) = numeral k / 2"
  using is_double_half [of "numeral k"] by (simp add: val_D_double)

lemma val_D_1_half [simp]: "val (D (1 / 2)) = 1 / 2"
  using is_double_half [of 1] by (simp add: val_D_double)

lemma val_D_uminus: "is_double x \<Longrightarrow> val (D (- x)) = - x"
  by (simp add: val_D_double is_double_neg)

lemma fl_uminus: "is_double x \<Longrightarrow> fl (- x) = Num (D (- x))"
  by (simp add: fl_double is_double_neg)

lemma fl_half [simp]: "numeral k < (2 ^ 53 :: int) \<Longrightarrow> fl (numeral k / 2) = Num (D (numeral k / 2))"
  using is_double_half [of "numeral k"] by (simp add: fl_double)

lemma fl_1_half [simp]: "fl (1 / 2) = Num (D (1 / 2))"
  using is_double_half [of 1] by (simp add: fl_double)

lemma fl_abs: "fl \<bar>val x\<bar> = Num (D \<bar>val x\<bar>)"
  by (simp add: fl_double is_double_abs)

lemma val_D_abs [simp]: "val (D \<bar>val x\<bar>) = \<bar>val x\<bar>"
  by (simp add: val_D_double is_double_abs)

section \<open>Properties of the statistics helpers\<close>

lemma js_at_nat: "i < length xs \<Longrightarrow> js_at xs (int i) = Num (xs ! i)"
  by (simp add: js_at_def)

lemma median_nonempty:
  assumes "xs \<noteq> []"
  shows "median xs =
           (if odd (length xs) then Num (sort xs ! (length xs div 2))
            else js_div (js_add (Num (sort xs ! (length xs div 2 - 1)))
                                (Num (sort xs ! (length xs div 2)))) (Num (D 2)))"
proof -
  let ?n = "length xs"
  have par: "(length (sort xs) mod 2 \<noteq> 0) = odd ?n"
    by (simp add: odd_iff_mod_2_eq_one)
  have mid: "int (length (sort xs)) div 2 = int (?n div 2)"
    by simp
  have lt: "?n div 2 < length (sort xs)"
    using assms by simp
  have at_mid: "js_at (sort xs) (int (?n div 2)) = Num (sort xs ! (?n div 2))"
    using lt by (rule js_at_nat)
  show ?thesis
  proof (cases "odd ?n")
    case True
    then show ?thesis
      unfolding median_def Let_def par mid at_mid by simp
  next
    case False
    moreover have "?n \<noteq> 0" using assms by simp
    ultimately have pos: "0 < ?n div 2" by presburger
    then have m1: "int (?n div 2) - 1 = int (?n div 2 - 1)"
      by simp
    have "?n div 2 - 1 < length (sort xs)"
      using lt by simp
    then have at_mid1: "js_at (sort xs) (int (?n div 2 - 1)) = Num (sort xs ! (?n div 2 - 1))"
      by (rule js_at_nat)
    from False show ?thesis
      unfolding median_def Let_def par mid m1 at_mid at_mid1 by simp
  qed
qed

section \<open>Degenerate sample sets\<close>

text \<open>
  None of \<open>median\<close>, \<open>mean\<close> and \<open>stddev\<close> has a \<^verbatim>\<open>throw\<close>, and no operation they apply
  to an array of numbers throws: each call returns a number, so the result type has no
  error branch.

  C3, as stated: the reductions fail explicitly instead of returning \<^verbatim>\<open>NaN\<close>. They
  return \<^verbatim>\<open>NaN\<close>.
\<close>

theorem degenerate_samples_counterexample:
  "median [] = NaN \<and> mean [] = NaN \<and> stddev [D 5] = NaN"
  by (simp add: median_def js_at_def mean_def stddev_def inf_of_sign_def js_sq_def)

text \<open>
  C3, amended: \<open>median\<close> and \<open>mean\<close> of an empty sample set return \<^verbatim>\<open>NaN\<close>, \<open>stddev\<close> of a
  single sample returns \<^verbatim>\<open>NaN\<close>, and \<open>stddev\<close> of an empty sample set returns zero
  (\<^verbatim>\<open>0 / -1\<close>, then the square root); nothing is raised.
\<close>

theorem degenerate_samples_values:
  "median [] = NaN \<and> mean [] = NaN \<and> stddev [] = Num (D 0) \<and> stddev [x] = NaN"
  by (simp add: median_def js_at_def mean_def stddev_def inf_of_sign_def js_sq_def)

theorem degenerate_samples_values_witness:
  "stddev [D 7] = NaN \<and> stddev [] = Num (D 0)"
  using degenerate_samples_values [of "D 7"] by simp

section \<open>Properties of the adjudicator\<close>

text \<open>A value that is \<^verbatim>\<open>NaN\<close>, the median of an empty sample set, never wins.\<close>

lemma js_NaN_operand:
  "js_sub NaN b = NaN" "js_sub a NaN = NaN"
  "js_lt NaN b = False" "js_lt a NaN = False"
  by (cases a; cases b; simp)+

lemma winner_NaN:
  "winner NaN b low sa sb = ''Tie''" "winner a NaN low sa sb = ''Tie''"
  by (simp_all add: winner_def js_gt_def js_NaN_operand)

lemma winner_same: "winner (Num a) (Num a) low (Num (D 0)) (Num (D 0)) = ''Tie''"
  by (simp add: winner_def js_gt_def)

lemma winner_within_noise:
  "winner (Num (D 100)) (Num (D 100.5)) low (Num (D 2)) (Num (D 2)) = ''~Tie''"
proof -
  have "js_sub (Num (D 100)) (Num (D 100.5)) = Num (D (- (1 / 2)))"
    using is_double_half [of 1] by (simp add: fl_uminus)
  moreover have "js_abs (Num (D (- (1 / 2)))) = Num (D (1 / 2))"
    using is_double_half [of 1] by (simp add: val_D_uminus)
  ultimately show ?thesis
    by (simp add: winner_def js_gt_def less_double_def)
qed

section \<open>Properties of the summary\<close>

lemma tally_step_counts:
  "msvcWins (tally_step t r) = msvcWins t + (if r_winner r = ''MSVC'' then 1 else 0)"
  "clangWins (tally_step t r) = clangWins t + (if r_winner r = ''ClangCL'' then 1 else 0)"
  "ties (tally_step t r) = ties t + (if r_winner r \<noteq> ''MSVC'' \<and> r_winner r \<noteq> ''ClangCL'' then 1 else 0)"
  by (simp_all add: tally_step_def Let_def)

lemma foldl_tally_counts:
  "msvcWins (foldl tally_step t rs) = msvcWins t + length (filter (\<lambda>r. r_winner r = ''MSVC'') rs)"
  "clangWins (foldl tally_step t rs) = clangWins t + length (filter (\<lambda>r. r_winner r = ''ClangCL'') rs)"
  "ties (foldl tally_step t rs) =
     ties t + length (filter (\<lambda>r. r_winner r \<noteq> ''MSVC'' \<and> r_winner r \<noteq> ''ClangCL'') rs)"
  by (induction rs arbitrary: t; simp add: tally_step_counts)+

lemma three_way_split:
  "length (filter (\<lambda>r. r_winner r = ''MSVC'') rs) + length (filter (\<lambda>r. r_winner r = ''ClangCL'') rs)
   + length (filter (\<lambda>r. r_winner r \<noteq> ''MSVC'' \<and> r_winner r \<noteq> ''ClangCL'') rs) = length rs"
  by (induction rs) auto

lemma example_row_winner:
  "r_winner (example_row (Num (D 100)) (Num (D 105))) = ''MSVC''"
  "r_winner (example_row (Num (D 100)) (Num (D 85))) = ''ClangCL''"
  "r_winner (example_row (Num (D 100)) (Num (D 100))) = ''Tie''"
  by (simp_all add: example_row_def winner_def js_gt_def less_double_def)

text \<open>
  C10: the loop counts a row as a tie exactly when its label is neither \<^verbatim>\<open>'MSVC'\<close> nor
  \<^verbatim>\<open>'ClangCL'\<close>, so the three counters add up to the number of rows; the label \<^verbatim>\<open>'Tie'\<close>
  that \<open>winner\<close> gives equal values and the label \<^verbatim>\<open>'~Tie'\<close> of its noise gate are both
  counted as ties.
\<close>

theorem every_label_counted_once:
  "msvcWins (tally_all rs) + clangWins (tally_all rs) + ties (tally_all rs) = length rs
   \<and> ties (tally_all rs) =
       length (filter (\<lambda>r. r_winner r \<noteq> ''MSVC'' \<and> r_winner r \<noteq> ''ClangCL'') rs)
   \<and> ties (tally_step t (r\<lparr>r_winner := ''Tie''\<rparr>)) = ties t + 1
   \<and> ties (tally_step t (r\<lparr>r_winner := ''~Tie''\<rparr>)) = ties t + 1
   \<and> ties (tally_step t (r\<lparr>r_winner := winner (Num a) (Num a) low (Num (D 0)) (Num (D 0))\<rparr>)) = ties t + 1
   \<and> ties (tally_step t (r\<lparr>r_winner := winner (Num (D 100)) (Num (D 100.5)) low (Num (D 2)) (Num (D 2))\<rparr>)) = ties t + 1"
proof -
  have "msvcWins (tally_all rs) + clangWins (tally_all rs) + ties (tally_all rs) = length rs"
    unfolding tally_all_def foldl_tally_counts using three_way_split [of rs] by simp
  moreover have "ties (tally_all rs) =
       length (filter (\<lambda>r. r_winner r \<noteq> ''MSVC'' \<and> r_winner r \<noteq> ''ClangCL'') rs)"
    unfolding tally_all_def foldl_tally_counts by simp
  ultimately show ?thesis
    unfolding winner_same winner_within_noise by (simp add: tally_step_counts)
qed

theorem every_label_counted_once_witness:
  "msvcWins (tally_all [example_row (Num (D 100)) (Num (D 105)), example_row (Num (D 100)) (Num (D 85)),
                        example_row (Num (D 100)) (Num (D 100))])
   + clangWins (tally_all [example_row (Num (D 100)) (Num (D 105)), example_row (Num (D 100)) (Num (D 85)),
                           example_row (Num (D 100)) (Num (D 100))])
   + ties (tally_all [example_row (Num (D 100)) (Num (D 105)), example_row (Num (D 100)) (Num (D 85)),
                      example_row (Num (D 100)) (Num (D 100))]) = 3
   \<and> ties (tally_step (tally_all []) (example_row (Num (D 1)) (Num (D 2))\<lparr>r_winner := ''~Tie''\<rparr>)) = 1"
  using every_label_counted_once
    [of "[example_row (Num (D 100)) (Num (D 105)), example_row (Num (D 100)) (Num (D 85)),
          example_row (Num (D 100)) (Num (D 100))]" "tally_all []"
        "example_row (Num (D 1)) (Num (D 2))" "D 0" True]
  by (simp add: tally_all_def)

section \<open>Properties of the trial runner and of the sampling\<close>

text \<open>
  C7: whichever way the coin falls, the \<open>msvc\<close> field of the pair is the result of running
  the MSVC binary and the \<open>clang\<close> field the result of running the ClangCL binary; only the
  world each of the two runs starts from depends on the coin. In particular, when every
  process prints the path of its own binary, the \<open>msvc\<close> field holds the MSVC path and the
  \<open>clang\<close> field the ClangCL path.
\<close>

theorem attribution_independent_of_order:
  "(case random E w of (r, w0) \<Rightarrow>
      if r < 0.5
      then msvc (fst (runBothTimed E C w args opts)) = fst (runTimed E w0 (MSVC_BIN C) args opts) \<and>
           clang (fst (runBothTimed E C w args opts)) =
             fst (runTimed E (snd (runTimed E w0 (MSVC_BIN C) args opts)) (CLANG_BIN C) args opts)
      else clang (fst (runBothTimed E C w args opts)) = fst (runTimed E w0 (CLANG_BIN C) args opts) \<and>
           msvc (fst (runBothTimed E C w args opts)) =
             fst (runTimed E (snd (runTimed E w0 (CLANG_BIN C) args opts)) (MSVC_BIN C) args opts))
   \<and> ((\<forall>v bin a p. sp_stdout (fst (spawnSync E v bin a p)) = Some bin) \<longrightarrow>
        stdout (msvc (fst (runBothTimed E C w args opts))) = MSVC_BIN C \<and>
        stdout (clang (fst (runBothTimed E C w args opts))) = CLANG_BIN C)"
proof -
  have echo: "stdout (fst (runTimed E v bin args opts)) = bin"
    if "\<forall>v bin a p. sp_stdout (fst (spawnSync E v bin a p)) = Some bin" for v bin
    using that by (simp add: runTimed_def Let_def split_def or_empty_def)
  show ?thesis
    by (auto simp add: runBothTimed_def Let_def split_def echo)
qed

theorem attribution_independent_of_order_witness:
  "(\<forall>v bin a p. sp_stdout (fst (spawnSync echo_env v bin a p)) = Some bin) \<and>
   fst (random echo_env (1 / 4)) < 0.5 \<and> \<not> fst (random echo_env (3 / 4)) < 0.5 \<and>
   stdout (msvc (fst (runBothTimed echo_env example_config (1 / 4) [''-e'', ''0''] []))) = ''node_msvc.exe'' \<and>
   stdout (clang (fst (runBothTimed echo_env example_config (1 / 4) [''-e'', ''0''] []))) = ''node_clangcl.exe'' \<and>
   stdout (msvc (fst (runBothTimed echo_env example_config (3 / 4) [''-e'', ''0''] []))) = ''node_msvc.exe'' \<and>
   stdout (clang (fst (runBothTimed echo_env example_config (3 / 4) [''-e'', ''0''] []))) = ''node_clangcl.exe''"
proof -
  have echo: "\<forall>v bin a p. sp_stdout (fst (spawnSync echo_env v bin a p)) = Some bin"
    by (simp add: echo_env_def)
  have coin: "fst (random echo_env (1 / 4)) < 0.5" "\<not> fst (random echo_env (3 / 4)) < 0.5"
    by (simp_all add: echo_env_def)
  have cfg: "MSVC_BIN example_config = ''node_msvc.exe''" "CLANG_BIN example_config = ''node_clangcl.exe''"
    by (simp_all add: example_config_def)
  show ?thesis
    using attribution_independent_of_order
        [where E = echo_env and w = "1 / 4" and C = example_config and args = "[''-e'', ''0'']" and opts = "[]"]
      attribution_independent_of_order
        [where E = echo_env and w = "3 / 4" and C = example_config and args = "[''-e'', ''0'']" and opts = "[]"]
      echo coin
    unfolding cfg by blast
qed

lemma duration_loop_lengths:
  "length (times_msvc (fst (duration_loop E C args n t w))) = length (times_msvc t) + n"
  "length (times_clang (fst (duration_loop E C args n t w))) = length (times_clang t) + n"
  by (induction n arbitrary: t w; simp add: split_def Let_def)+

lemma push_parsed_length:
  "length (push_parsed E ts r) =
     length ts + (if parseFloat E (trim E (stdout r)) = None then 0 else 1)"
  by (simp add: push_parsed_def split: option.split)

lemma runTimed_timeout:
  "runTimed timeout_env w bin args opts = (timed_out, w + 60000 * 10 ^ 6)"
  by (simp add: runTimed_def timeout_env_def Let_def or_empty_def timed_out_def)

lemma runBothTimed_timeout:
  "runBothTimed timeout_env C w args [] =
     (\<lparr>msvc = timed_out, clang = timed_out\<rparr>, w + 120000 * 10 ^ 6)"
proof -
  have r: "random timeout_env w = (1 / 4, w)"
    by (simp add: timeout_env_def)
  show ?thesis
    unfolding runBothTimed_def r by (simp add: runTimed_timeout)
qed

lemma warmup_loop_timeout:
  "warmup_loop timeout_env C args n w = w + int n * (120000 * 10 ^ 6)"
  by (induction n arbitrary: w) (simp_all add: runBothTimed_timeout algebra_simps)

lemma duration_loop_timeout:
  "fst (duration_loop timeout_env C args n t w) =
     \<lparr>times_msvc = times_msvc t @ replicate n (D 60000), times_clang = times_clang t @ replicate n (D 60000)\<rparr>"
  by (induction n arbitrary: t w)
     (simp_all add: runBothTimed_timeout timed_out_def replicate_app_Cons_same)

lemma startup_samples_timeout:
  "fst (startup_samples timeout_env C w) =
     \<lparr>times_msvc = replicate 30 (D 60000), times_clang = replicate 30 (D 60000)\<rparr>"
  by (simp add: startup_samples_def duration_loop_timeout ITERATIONS_def)

lemma sort_replicate: "sort (replicate n (x::double)) = replicate n x"
  by (simp add: sorted_sort_id sorted_replicate)

lemma median_30: "median (replicate 30 (D 60000)) = Num (D 60000)"
  by (simp add: median_nonempty sort_replicate)

lemma sum_replicate:
  "(k + n) * 60000 \<le> 2 ^ 53 \<Longrightarrow>
   foldl (\<lambda>a b. js_add a (Num b)) (Num (D (real (k * 60000)))) (replicate n (D 60000)) =
     Num (D (real ((k + n) * 60000)))"
proof (induction n arbitrary: k)
  case 0
  then show ?case by simp
next
  case (Suc n)
  have le: "(Suc k + n) * 60000 \<le> 2 ^ 53" using Suc.prems by simp
  then have "k * 60000 + 60000 \<le> 2 ^ 53" by simp
  then have d: "is_double (real (k * 60000 + 60000))"
    using is_double_int [of "int (k * 60000 + 60000)"] by simp
  from \<open>k * 60000 + 60000 \<le> 2 ^ 53\<close> have "k * 60000 \<le> 2 ^ 53"
    by linarith
  then have v: "val (D (real (k * 60000))) = real (k * 60000)"
    by (rule val_D_of_nat)
  have "js_add (Num (D (real (k * 60000)))) (Num (D 60000)) = fl (real (k * 60000 + 60000))"
    using v by simp
  also have "\<dots> = Num (D (real (Suc k * 60000)))"
    using fl_double [OF d] by (simp add: algebra_simps)
  finally show ?case
    using Suc.IH [OF le] by simp
qed

lemma mean_30: "mean (replicate 30 (D 60000)) = Num (D 60000)"
proof -
  have "foldl (\<lambda>a b. js_add a (Num b)) (Num (D 0)) (replicate 30 (D 60000)) = Num (D 1800000)"
    using sum_replicate [of 0 30] by simp
  then show ?thesis
    by (simp add: mean_def)
qed

lemma squares_replicate:
  "foldl (\<lambda>sum v. js_add sum (js_sq (js_sub (Num v) (Num x)))) (Num (D 0)) (replicate n x) = Num (D 0)"
  by (induction n) (simp_all add: js_sq_def)

lemma stddev_30: "stddev (replicate 30 (D 60000)) = Num (D 0)"
  unfolding stddev_def mean_30 Let_def squares_replicate by simp

text \<open>
  C4, as stated: a trial that times out or exits with a non-zero status contributes no
  observation. When every process is killed at the timeout, \<^verbatim>\<open>benchStartupTime\<close> still
  collects thirty durations of 60000 ms for each candidate and reports their medians.
\<close>

theorem failed_trial_recorded_counterexample:
  "sp_timedOut (fst (spawnSync timeout_env 0 (MSVC_BIN example_config) [''-e'', ''0''] [])) \<and>
   sp_status (fst (spawnSync timeout_env 0 (MSVC_BIN example_config) [''-e'', ''0''] [])) = None \<and>
   fst (startup_samples timeout_env example_config 0) =
     \<lparr>times_msvc = replicate 30 (D 60000), times_clang = replicate 30 (D 60000)\<rparr> \<and>
   r_msvc (fst (benchStartupTime (\<lambda>x. []) timeout_env example_config 0)) = Num (D 60000) \<and>
   r_clang (fst (benchStartupTime (\<lambda>x. []) timeout_env example_config 0)) = Num (D 60000) \<and>
   r_winner (fst (benchStartupTime (\<lambda>x. []) timeout_env example_config 0)) = ''Tie''"
proof -
  have "sp_timedOut (fst (spawnSync timeout_env 0 (MSVC_BIN example_config) [''-e'', ''0''] []))"
       "sp_status (fst (spawnSync timeout_env 0 (MSVC_BIN example_config) [''-e'', ''0''] [])) = None"
    by (simp_all add: timeout_env_def)
  moreover note startup_samples_timeout [of example_config 0]
  moreover have "winner (Num (D 60000)) (Num (D 60000)) True (Num (D 0)) (Num (D 0)) = ''Tie''"
    by (rule winner_same)
  ultimately show ?thesis
    by (simp add: benchStartupTime_def split_def Let_def median_30 stddev_30)
qed

text \<open>
  C4, amended: in the workloads that measure the duration of the process
  (\<^verbatim>\<open>benchStartupTime\<close> and the two \<^verbatim>\<open>require\<close> workloads) every measured trial
  contributes its duration to each candidate's sample set, whatever the exit status and
  also after a timeout, so each sample set of \<^verbatim>\<open>benchStartupTime\<close> has exactly 30
  observations; in the workloads that read a printed number a measured trial contributes
  one observation when \<^verbatim>\<open>parseFloat\<close> of the trimmed output is a number and none when it
  is \<^verbatim>\<open>NaN\<close>, whatever the exit status.
\<close>

theorem samples_recorded_whatever_the_status:
  "length (times_msvc (fst (startup_samples E C w))) = 30
   \<and> length (times_clang (fst (startup_samples E C w))) = 30
   \<and> fst (duration_loop E C args (Suc 0) t w) =
       \<lparr>times_msvc = times_msvc t @ [durationMs (msvc (fst (runBothTimed E C w args [])))],
        times_clang = times_clang t @ [durationMs (clang (fst (runBothTimed E C w args [])))]\<rparr>
   \<and> fst (printed_loop E C args (Suc 0) t w) =
       \<lparr>times_msvc = push_parsed E (times_msvc t) (msvc (fst (runBothTimed E C w args []))),
        times_clang = push_parsed E (times_clang t) (clang (fst (runBothTimed E C w args [])))\<rparr>
   \<and> push_parsed E ts (r\<lparr>status := s\<rparr>) = push_parsed E ts r
   \<and> length (push_parsed E ts r) =
       length ts + (if parseFloat E (trim E (stdout r)) = None then 0 else 1)"
  by (simp add: startup_samples_def duration_loop_lengths ITERATIONS_def split_def Let_def
        push_parsed_length) (simp add: push_parsed_def)

theorem samples_recorded_whatever_the_status_witness:
  "length (times_msvc (fst (startup_samples timeout_env example_config 0))) = 30
   \<and> length (push_parsed timeout_env [] \<lparr>durationMs = D 3, stdout = ''12.5'', stderr = [], status = Some 1\<rparr>) = 1
   \<and> length (push_parsed timeout_env [] \<lparr>durationMs = D 60000, stdout = [], stderr = [], status = None\<rparr>) = 0"
  using samples_recorded_whatever_the_status
      [where E = timeout_env and C = example_config and w = 0 and ts = "[]"
         and r = "\<lparr>durationMs = D 3, stdout = ''12.5'', stderr = [], status = Some 1\<rparr>"]
    samples_recorded_whatever_the_status
      [where E = timeout_env and C = example_config and w = 0 and ts = "[]"
         and r = "\<lparr>durationMs = D 60000, stdout = [], stderr = [], status = None\<rparr>"]
  by (simp add: timeout_env_def)

section \<open>Properties of the start of the script\<close>

text \<open>
  C8, as stated: both paths are checked to exist and to be executable, and nothing but a
  missing path ends the process with a failure. A third argument ends it with status 1
  although no path is missing, and two paths that exist but cannot be executed pass.
\<close>

theorem other_fatal_failure_counterexample:
  "script (\<lambda>p. p) (\<lambda>p. Some False) (\<lambda>C. Inr ()) [''a'', ''b'', ''c''] = (1, [usage]) \<and>
   validate (\<lambda>p. p) (\<lambda>p. Some False) [''a'', ''b''] = Proceed \<lparr>MSVC_BIN = ''a'', CLANG_BIN = ''b''\<rparr>"
  by (simp add: script_def validate_def existsSync_def)

text \<open>
  C8, amended: before \<^verbatim>\<open>main\<close> starts, the script checks that it got exactly two
  arguments and that both resolved paths exist (whether they can be executed is not
  checked); a wrong number of arguments or a missing path prints an explicit message and
  ends the process with status 1, without running \<^verbatim>\<open>main\<close>; otherwise \<^verbatim>\<open>main\<close> runs and the
  process ends with status 0, also when \<^verbatim>\<open>main\<close> throws, the error being printed.
\<close>

theorem validation_outcomes:
  "script resolve fs body args =
     (if length args \<noteq> 2 then (1, [usage])
      else if fs (resolve (args ! 0)) = None
      then (1, [''MSVC binary not found: '' @ resolve (args ! 0)])
      else if fs (resolve (args ! 1)) = None
      then (1, [''ClangCL binary not found: '' @ resolve (args ! 1)])
      else (0, case body \<lparr>MSVC_BIN = resolve (args ! 0), CLANG_BIN = resolve (args ! 1)\<rparr> of
                 Inl e \<Rightarrow> [e] | Inr u \<Rightarrow> []))"
  by (simp add: script_def validate_def existsSync_def Let_def split: sum.split)

theorem validation_outcomes_witness:
  "script (\<lambda>p. p) (\<lambda>p. if p = ''a'' then Some True else None) (\<lambda>C. Inr ()) [''a'', ''b'']
     = (1, [''ClangCL binary not found: b''])
   \<and> script (\<lambda>p. p) (\<lambda>p. Some True) (\<lambda>C. Inl ''spawn failed'') [''a'', ''b'']
     = (0, [''spawn failed''])"
  using validation_outcomes
      [where resolve = "\<lambda>p. p" and fs = "\<lambda>p. if p = ''a'' then Some True else None"
         and body = "\<lambda>C. Inr ()" and args = "[''a'', ''b'']"]
    validation_outcomes
      [where resolve = "\<lambda>p. p" and fs = "\<lambda>p. Some True"
         and body = "\<lambda>C. Inl ''spawn failed''" and args = "[''a'', ''b'']"]
  by simp

section \<open>Properties of the formatting\<close>

lemma digit_char_0: "digit_char 0 = CHR ''0''"
  by (simp add: digit_char_def)

lemma digits_small: "n < 10 \<Longrightarrow> digits n = [digit_char n]"
  by (simp add: digits.simps)

lemma digits_step: "10 \<le> n \<Longrightarrow> digits n = digits (n div 10) @ [digit_char (n mod 10)]"
  by (subst digits.simps) simp

lemma digits_nonempty: "digits n \<noteq> []"
  by (subst digits.simps) simp

lemma length_digits_pos: "0 < length (digits n)"
  using digits_nonempty [of n] by simp

lemma div_10_div_10: "(n::nat) div 10 div 10 = n div 100"
  by (simp add: div_mult2_eq [symmetric])

text \<open>The last two digits are the decimals, the digits before them the integer part.\<close>

lemma two_decimals:
  "(let m = digits n;
        m2 = (if length m \<le> 2 then replicate (2 + 1 - length m) CHR ''0'' @ m else m);
        k = length m2
    in take (k - 2) m2 @ ''.'' @ drop (k - 2) m2)
   = digits (n div 100) @ ''.'' @ [digit_char (n div 10 mod 10), digit_char (n mod 10)]"
proof -
  consider "n < 10" | "10 \<le> n" "n < 100" | "100 \<le> n" by linarith
  then show ?thesis
  proof cases
    case 1
    then have "digits n = [digit_char n]" "n div 100 = 0" "n div 10 = 0" "n mod 10 = n"
      by (simp_all add: digits_small)
    then show ?thesis
      by (simp add: Let_def digits_small digit_char_0)
  next
    case 2
    then have "n div 10 < 10" by simp
    with 2 have "digits n = [digit_char (n div 10), digit_char (n mod 10)]"
      by (simp add: digits_step digits_small)
    moreover from 2 have "n div 100 = 0" "n div 10 mod 10 = n div 10" by simp_all
    ultimately show ?thesis
      by (simp add: Let_def digits_small digit_char_0)
  next
    case 3
    then have "10 \<le> n" "10 \<le> n div 10" by simp_all
    then have d: "digits n = digits (n div 100) @ [digit_char (n div 10 mod 10), digit_char (n mod 10)]"
      by (simp add: digits_step [of n] digits_step [of "n div 10"] div_10_div_10)
    have "0 < length (digits (n div 100))" by (rule length_digits_pos)
    then show ?thesis
      unfolding d Let_def by simp
  qed
qed

lemma toFixed_2:
  "toFixed big 2 (Num d) =
     (if val d < 0 then ''-'' else []) @
     (if 10 ^ 21 \<le> \<bar>val d\<bar> then big \<bar>val d\<bar> else two_places \<bar>val d\<bar>)"
proof (cases "10 ^ 21 \<le> \<bar>val d\<bar>")
  case True
  then show ?thesis by (simp add: Let_def)
next
  case False
  let ?n = "nat \<lfloor>\<bar>val d\<bar> * 100 + 1 / 2\<rfloor>"
  have "toFixed big 2 (Num d) =
          (if val d < 0 then ''-'' else []) @
          (let m = digits ?n;
               m2 = (if length m \<le> 2 then replicate (2 + 1 - length m) CHR ''0'' @ m else m);
               k = length m2
           in take (k - 2) m2 @ ''.'' @ drop (k - 2) m2)"
    using False by (simp add: Let_def)
  then have "toFixed big 2 (Num d) =
          (if val d < 0 then ''-'' else []) @
          digits (?n div 100) @ ''.'' @ [digit_char (?n div 10 mod 10), digit_char (?n mod 10)]"
    by (simp only: two_decimals)
  then show ?thesis
    using False by (simp add: two_places_def Let_def)
qed

lemma pctDiff_cases:
  "pctDiff big a b =
     (case percent_value a b of
        NaN \<Rightarrow> ''NaN%''
      | PInf \<Rightarrow> ''+Infinity%''
      | NInf \<Rightarrow> ''-Infinity%''
      | Num d \<Rightarrow>
          (if 0 < val d then ''+'' else if val d < 0 then ''-'' else []) @
          (if 10 ^ 21 \<le> \<bar>val d\<bar> then big \<bar>val d\<bar> else two_places \<bar>val d\<bar>) @ ''%'')"
proof (cases "percent_value a b")
  case (Num d)
  then have "pctDiff big a b = (if 0 < val d then ''+'' else []) @ toFixed big 2 (Num d) @ ''%''"
    by (simp add: pctDiff_def percent_value_def Let_def js_gt_def less_double_def)
  then show ?thesis
    unfolding toFixed_2 Num by simp
qed (simp_all add: pctDiff_def percent_value_def Let_def js_gt_def)

section \<open>Evaluating the arithmetic\<close>

lemma fl_to:
  assumes "2 powi k \<le> \<bar>x\<bar>" "\<bar>x\<bar> < 2 powi (k + 1)"
    and "q = max (k - 52) (- 1074)" and "rne (x / 2 powi q) = n"
    and "of_int n * 2 powi q = y" and "is_double y"
  shows "fl x = Num (D y)"
proof -
  have r: "rd x = y"
    using rd_eval [OF assms(1-4)] assms(5) by simp
  have "rd y = y"
    using assms(6) by (rule is_double_fix)
  with r have d: "D x = D y"
    by (simp only: D_def)
  have "\<bar>rd x\<bar> < 2 ^ 1024"
    unfolding r using assms(6) by (rule is_double_bound)
  then show ?thesis
    by (simp only: fl_def if_True d)
qed

lemma val_D_neg_numeral [simp]:
  "numeral k \<le> (2 ^ 53 :: int) \<Longrightarrow> val (D (- numeral k)) = - numeral k"
  by (simp add: val_D_uminus is_double_numeral)

lemma fl_neg_numeral [simp]:
  "numeral k \<le> (2 ^ 53 :: int) \<Longrightarrow> fl (- numeral k) = Num (D (- numeral k))"
  by (simp add: fl_uminus is_double_numeral)

lemma fl_neg: "fl x = Num (D y) \<Longrightarrow> is_double y \<Longrightarrow> fl (- x) = Num (D (- y))"
proof -
  assume a: "fl x = Num (D y)" and y: "is_double y"
  from a have b: "\<bar>rd x\<bar> < 2 ^ 1024" and "D x = D y"
    by (simp_all add: fl_def split: if_splits)
  then have "rd x = y"
    using val_D [OF b] val_D_double [OF y] by simp
  then have "rd (- x) = - y" "rd (- y) = - y"
    using y by (simp_all add: rd_minus is_double_fix)
  then show ?thesis
    using b by (simp add: fl_def D_def rd_minus)
qed

text \<open>The doubles nearest to 0.1, 0.05, 0.15, 0.025 and 0.14375.\<close>

lemma dbl_consts:
  "is_double (3602879701896397 / 2 ^ 55)"
  "is_double (3602879701896397 / 2 ^ 56)"
  "is_double (5404319552844595 / 2 ^ 55)"
  "is_double (3602879701896397 / 2 ^ 57)"
  "is_double (2589569785738035 / 2 ^ 54)"
  "is_double (8092405580431359 / 2 ^ 49)"
  using is_double_dyadic [of 3602879701896397 55, simplified]
    is_double_dyadic [of 3602879701896397 56, simplified]
    is_double_dyadic [of 5404319552844595 55, simplified]
    is_double_dyadic [of 3602879701896397 57, simplified]
    is_double_dyadic [of 2589569785738035 54, simplified]
    is_double_dyadic [of 8092405580431359 49, simplified]
  by simp_all

lemmas dbl = dbl_consts [simplified]

lemma fl_tenth: "fl (1 / 10) = Num (D (3602879701896397 / 2 ^ 55))"
  by (rule fl_to [where k = "- 4" and q = "- 56" and n = 7205759403792794])
     (simp_all add: rne_def Let_def dbl)

lemma fl_tenth_100: "fl (3602879701896397 / 2 ^ 55 * 100) = Num (D 10)"
  by (rule fl_to [where k = 3 and q = "- 49" and n = 5629499534213120])
     (simp_all add: rne_def Let_def is_double_numeral)

lemma percent_100_110: "percent_value (Num (D 100)) (Num (D 110)) = Num (D 10)"
proof -
  have "js_sub (Num (D 110)) (Num (D 100)) = Num (D 10)"
    by simp
  moreover have "js_div (Num (D 10)) (Num (D 100)) = Num (D (3602879701896397 / 2 ^ 55))"
    using fl_tenth by simp
  moreover have "js_mul (Num (D (3602879701896397 / 2 ^ 55))) (Num (D 100)) = Num (D 10)"
    using fl_tenth_100 by (simp add: val_D_double dbl)
  ultimately show ?thesis
    by (simp only: percent_value_def)
qed

lemma percent_100_90: "percent_value (Num (D 100)) (Num (D 90)) = Num (D (- 10))"
proof -
  have "js_sub (Num (D 90)) (Num (D 100)) = Num (D (- 10))"
    by simp
  moreover have "js_div (Num (D (- 10))) (Num (D 100)) = Num (D (- (3602879701896397 / 2 ^ 55)))"
    using fl_neg [OF fl_tenth dbl_consts(1)] by simp
  moreover have "js_mul (Num (D (- (3602879701896397 / 2 ^ 55)))) (Num (D 100)) = Num (D (- 10))"
    using fl_neg [OF fl_tenth_100] by (simp add: val_D_uminus dbl is_double_numeral)
  ultimately show ?thesis
    by (simp only: percent_value_def)
qed

lemma digits_10: "digits 10 = ''10''"
  by (simp add: digits_step digits_small digit_char_def)

lemma two_places_10: "two_places 10 = ''10.00''"
  by (simp add: two_places_def digits_10 digit_char_def)

section \<open>Properties of the percentage difference\<close>

lemma fl_neg_1 [simp]: "fl (- 1) = Num (D (- 1))"
  using is_double_int [of "- 1"] by (simp add: fl_double)

lemma pctDiff_100_110: "pctDiff big (Num (D 100)) (Num (D 110)) = ''+10.00%''"
  unfolding pctDiff_cases percent_100_110 by (simp add: two_places_10)

lemma pctDiff_100_90: "pctDiff big (Num (D 100)) (Num (D 90)) = ''-10.00%''"
  unfolding pctDiff_cases percent_100_90 by (simp add: two_places_10)

lemma percent_160_183:
  "percent_value (Num (D 160)) (Num (D 183)) = Num (D (8092405580431359 / 2 ^ 49))"
proof -
  have "js_sub (Num (D 183)) (Num (D 160)) = Num (D 23)"
    by simp
  moreover have "fl (23 / 160) = Num (D (2589569785738035 / 2 ^ 54))"
    by (rule fl_to [where k = "- 3" and q = "- 55" and n = 5179139571476070])
       (simp_all add: rne_def Let_def dbl)
  then have "js_div (Num (D 23)) (Num (D 160)) = Num (D (2589569785738035 / 2 ^ 54))"
    by simp
  moreover have "fl (2589569785738035 / 2 ^ 54 * 100) = Num (D (8092405580431359 / 2 ^ 49))"
    by (rule fl_to [where k = 3 and q = "- 49" and n = 8092405580431359])
       (simp_all add: rne_def Let_def dbl)
  then have "js_mul (Num (D (2589569785738035 / 2 ^ 54))) (Num (D 100)) =
      Num (D (8092405580431359 / 2 ^ 49))"
    by (simp add: val_D_double dbl)
  ultimately show ?thesis
    by (simp only: percent_value_def)
qed

lemma pctDiff_160_183: "pctDiff big (Num (D 160)) (Num (D 183)) = ''+14.37%''"
proof -
  have "digits 14 = ''14''"
    by (simp add: digits_step digits_small digit_char_def)
  then have "two_places (8092405580431359 / 2 ^ 49) = ''14.37''"
    by (simp add: two_places_def digit_char_def)
  then show ?thesis
    unfolding pctDiff_cases percent_160_183 by (simp add: val_D_double dbl)
qed

lemma percent_200_205: "percent_value (Num (D 200)) (Num (D 205)) = Num (D (5 / 2))"
proof -
  have "js_sub (Num (D 205)) (Num (D 200)) = Num (D 5)"
    by simp
  moreover have "fl (1 / 40) = Num (D (3602879701896397 / 2 ^ 57))"
    by (rule fl_to [where k = "- 6" and q = "- 58" and n = 7205759403792794])
       (simp_all add: rne_def Let_def dbl)
  then have "js_div (Num (D 5)) (Num (D 200)) = Num (D (3602879701896397 / 2 ^ 57))"
    by simp
  moreover have "fl (3602879701896397 / 2 ^ 57 * 100) = Num (D (5 / 2))"
    by (rule fl_to [where k = 1 and q = "- 51" and n = 5629499534213120])
       (simp_all add: rne_def Let_def is_double_half [of 5, simplified])
  then have "js_mul (Num (D (3602879701896397 / 2 ^ 57))) (Num (D 100)) = Num (D (5 / 2))"
    by (simp add: val_D_double dbl)
  ultimately show ?thesis
    by (simp only: percent_value_def)
qed

lemma percent_1_0: "percent_value (Num (D 1)) (Num (D 0)) = Num (D (- 100))"
  by (simp add: percent_value_def)

lemma percent_0_0: "percent_value (Num (D 0)) (Num (D 0)) = NaN"
  by (simp add: percent_value_def inf_of_sign_def)

lemma percent_0_1: "percent_value (Num (D 0)) (Num (D 1)) = PInf"
  by (simp add: percent_value_def inf_of_sign_def)

text \<open>
  C5, as stated: for every pair of summary values the result is the value
  \<open>(B - A) / A * 100\<close> with a sign and two decimal places. With a baseline of zero the
  code prints \<^verbatim>\<open>NaN%\<close> or \<^verbatim>\<open>+Infinity%\<close>, and for 160 and 183, where
  \<open>(B - A) / A * 100\<close> is 14.375, it prints \<^verbatim>\<open>+14.37%\<close>: the quotient \<open>23 / 160\<close> is
  rounded to a double before it is multiplied by 100.
\<close>

theorem pctDiff_as_stated_counterexample:
  "pctDiff (\<lambda>x. []) (Num (D 0)) (Num (D 0)) = ''NaN%'' \<and>
   pctDiff (\<lambda>x. []) (Num (D 0)) (Num (D 1)) = ''+Infinity%'' \<and>
   (183 - 160) / 160 * 100 = (14.375 :: real) \<and>
   pctDiff (\<lambda>x. []) (Num (D 160)) (Num (D 183)) = ''+14.37%''"
  unfolding pctDiff_160_183 by (simp add: pctDiff_cases percent_0_0 percent_0_1)

text \<open>
  C5, amended: whichever candidate is the better one, \<open>pctDiff\<close> renders the number \<open>d\<close>
  that results from \<open>(B - A) / A * 100\<close> in double arithmetic, each of the three
  operations rounding to the nearest double, with candidate A's value as the baseline:
  \<^verbatim>\<open>NaN%\<close> when \<open>d\<close> is \<^verbatim>\<open>NaN\<close>, \<^verbatim>\<open>+Infinity%\<close> and \<^verbatim>\<open>-Infinity%\<close> when it is infinite, and
  else a \<^verbatim>\<open>+\<close> exactly when \<open>d\<close> is positive (a \<^verbatim>\<open>-\<close> when it is negative), the magnitude of
  \<open>d\<close> with two decimal places (\<^verbatim>\<open>ToString\<close> of the magnitude from \<open>10\<^sup>2\<^sup>1\<close> on), and
  \<^verbatim>\<open>%\<close>. \<open>pctDiff(100, 110)\<close> is \<^verbatim>\<open>+10.00%\<close> and \<open>pctDiff(100, 90)\<close> is \<^verbatim>\<open>-10.00%\<close>.
\<close>

theorem pctDiff_baseline_A:
  "pctDiff big a b =
     (case percent_value a b of
        NaN \<Rightarrow> ''NaN%''
      | PInf \<Rightarrow> ''+Infinity%''
      | NInf \<Rightarrow> ''-Infinity%''
      | Num d \<Rightarrow>
          (if 0 < val d then ''+'' else if val d < 0 then ''-'' else []) @
          (if 10 ^ 21 \<le> \<bar>val d\<bar> then big \<bar>val d\<bar> else two_places \<bar>val d\<bar>) @ ''%'')
   \<and> pctDiff big (Num (D 100)) (Num (D 110)) = ''+10.00%''
   \<and> pctDiff big (Num (D 100)) (Num (D 90)) = ''-10.00%''"
  using pctDiff_cases [of big a b] pctDiff_100_110 [of big] pctDiff_100_90 [of big]
  by (simp only: simp_thms)

theorem pctDiff_baseline_A_witness:
  "pctDiff (\<lambda>x. []) (Num (D 200)) (Num (D 205)) = ''+2.50%'' \<and>
   pctDiff (\<lambda>x. []) (Num (D 1)) (Num (D 0)) = ''-100.00%''"
proof -
  have "digits 2 = ''2''" "digits 100 = ''100''"
    by (simp_all add: digits_step digits_small digit_char_def)
  then have "two_places (5 / 2) = ''2.50''" "two_places 100 = ''100.00''"
    by (simp_all add: two_places_def digit_char_def)
  then show ?thesis
    using pctDiff_baseline_A [of "\<lambda>x. []" "Num (D 200)" "Num (D 205)"]
      pctDiff_baseline_A [of "\<lambda>x. []" "Num (D 1)" "Num (D 0)"]
    unfolding percent_200_205 percent_1_0
    by (simp add: is_double_half [of 5, simplified] val_D_double)
qed

section \<open>The noise gate and the direction\<close>

lemma val_max: "val (max s t) = max (val s) (val t)"
  by (simp add: max_def less_eq_double_def)

lemma val_min: "val (min s t) = min (val s) (val t)"
  by (simp add: min_def less_eq_double_def)

lemma rd_abs: "rd \<bar>x\<bar> = \<bar>rd x\<bar>"
proof (cases "0 \<le> x")
  case True
  then show ?thesis using rd_nonneg [of x] by simp
next
  case False
  then have "0 \<le> rd (- x)" by (intro rd_nonneg) simp
  with False show ?thesis by (simp add: rd_minus)
qed

text \<open>
  The absolute difference of two finite numbers: the difference is rounded, and is an
  infinity when it overflows.
\<close>

lemma js_abs_sub:
  "js_abs (js_sub (Num x) (Num y)) =
     (if \<bar>rd (val x - val y)\<bar> < 2 ^ 1024 then Num (D \<bar>val x - val y\<bar>) else PInf)"
proof (cases "\<bar>rd (val x - val y)\<bar> < 2 ^ 1024")
  case True
  then have "js_sub (Num x) (Num y) = Num (D (val x - val y))"
    by (simp only: js_sub.simps fl_def if_True)
  moreover have "val (D (val x - val y)) = rd (val x - val y)"
    using True by (rule val_D)
  moreover have "fl \<bar>rd (val x - val y)\<bar> = Num (D \<bar>val x - val y\<bar>)"
  proof -
    have i: "is_double \<bar>rd (val x - val y)\<bar>"
      using True by (intro is_double_abs rd_is_double)
    have "D \<bar>rd (val x - val y)\<bar> = D \<bar>val x - val y\<bar>"
      using is_double_fix [OF i] by (simp only: D_def rd_abs [symmetric])
    with fl_double [OF i] show ?thesis by simp
  qed
  ultimately show ?thesis
    using True by (simp only: js_abs.simps if_True)
next
  case False
  then have "js_sub (Num x) (Num y) = PInf \<or> js_sub (Num x) (Num y) = NInf"
    by (simp only: js_sub.simps fl_def if_False) simp
  then have "js_abs (js_sub (Num x) (Num y)) = PInf"
    by auto
  with False show ?thesis by (simp only: if_False)
qed

lemma val_abs_diff:
  assumes "\<bar>rd (val x - val y)\<bar> < 2 ^ 1024"
  shows "val (D \<bar>val x - val y\<bar>) = \<bar>rd (val x - val y)\<bar>"
proof -
  have "\<bar>rd \<bar>val x - val y\<bar>\<bar> < 2 ^ 1024"
    using assms by (simp only: rd_abs abs_abs)
  then show ?thesis
    using val_D [of "\<bar>val x - val y\<bar>"] by (simp only: rd_abs)
qed

lemma noise_gate:
  "((js_gt sa (Num (D 0)) \<or> js_gt sb (Num (D 0))) \<and> js_lt d (js_max sa sb)) =
   (js_gt (js_max sa sb) (Num (D 0)) \<and> js_lt d (js_max sa sb))"
  by (cases sa; cases sb; cases d) (auto simp add: js_gt_def less_max_iff_disj)

lemma winner_general:
  "winner a b low sa sb =
     (if js_gt (js_max sa sb) (Num (D 0)) \<and> js_lt (js_abs (js_sub a b)) (js_max sa sb)
      then ''~Tie''
      else if low
      then (if js_lt a b then ''MSVC'' else if js_lt b a then ''ClangCL'' else ''Tie'')
      else (if js_lt b a then ''MSVC'' else if js_lt a b then ''ClangCL'' else ''Tie''))"
  unfolding winner_def noise_gate by (simp add: js_gt_def)

lemma winner_finite:
  "winner (Num x) (Num y) low (Num s) (Num t) =
     (if 0 < max (val s) (val t) \<and> \<bar>rd (val x - val y)\<bar> < max (val s) (val t)
      then ''~Tie''
      else if low
      then (if val x < val y then ''MSVC'' else if val y < val x then ''ClangCL'' else ''Tie'')
      else (if val y < val x then ''MSVC'' else if val x < val y then ''ClangCL'' else ''Tie''))"
proof -
  have m: "max (val s) (val t) < 2 ^ 1024"
    by (simp only: max_less_iff_conj val_bound [unfolded abs_less_iff, THEN conjunct1] simp_thms)
  have g: "js_gt (js_max (Num s) (Num t)) (Num (D 0)) = (0 < max (val s) (val t))"
    by (simp add: js_gt_def less_double_def val_max)
  have l: "js_lt (js_abs (js_sub (Num x) (Num y))) (js_max (Num s) (Num t)) =
      (\<bar>rd (val x - val y)\<bar> < max (val s) (val t))"
  proof (cases "\<bar>rd (val x - val y)\<bar> < 2 ^ 1024")
    case True
    then show ?thesis
      unfolding js_abs_sub by (simp add: less_double_def val_max val_abs_diff)
  next
    case False
    then have "\<not> \<bar>rd (val x - val y)\<bar> < max (val s) (val t)"
      using m by linarith
    with False show ?thesis
      unfolding js_abs_sub by simp
  qed
  show ?thesis
    unfolding winner_general g l by (simp add: less_double_def)
qed

lemma rd_numeral [simp]: "numeral k \<le> (2 ^ 53 :: int) \<Longrightarrow> rd (numeral k) = numeral k"
  by (simp add: is_double_fix is_double_numeral)

lemma rd_neg_numeral [simp]:
  "numeral k \<le> (2 ^ 53 :: int) \<Longrightarrow> rd (- numeral k) = - numeral k"
  by (simp add: rd_minus)

lemma rd_1 [simp]: "rd 1 = 1"
  using is_double_int [of 1] by (simp add: is_double_fix)

lemma winner_100_105:
  "winner (Num (D 100)) (Num (D 105)) True (Num (D 1)) (Num (D 1)) = ''MSVC''"
  unfolding winner_finite by simp

text \<open>The difference \<open>1 - 2\<^sup>-\<^sup>6\<^sup>0\<close> is below 1, and the nearest double is 1.\<close>

lemma val_tiny: "val (D (1 / 2 ^ 60)) = 1 / 2 ^ 60"
  using is_double_dyadic [of 1 60, simplified] by (simp add: val_D_double)

lemma rd_below_1: "rd (1 - 1 / 2 ^ 60) = 1"
  by (rule rd_eval [where k = "- 1" and q = "- 53" and n = 9007199254740992, THEN trans])
     (simp_all add: rne_def Let_def)

lemma winner_rounded_gap:
  "winner (Num (D 1)) (Num (D (1 / 2 ^ 60))) True (Num (D 1)) (Num (D 0)) = ''ClangCL''"
  unfolding winner_finite val_tiny val_D_1 val_D_0 rd_below_1 by simp

text \<open>
  C1, as stated: the example \<open>adjudicate(100, 105, lowerIsBetter = true, stdA = 1, stdB = 1)\<close>
  is said to give B. The gap 5 is outside the noise, lower is better and 100 is the
  smaller value, which is candidate A's: the code answers \<^verbatim>\<open>'MSVC'\<close>. Nor is the answer a
  tie whenever the difference of the values is below the noise: for the values 1 and
  \<open>2\<^sup>-\<^sup>6\<^sup>0\<close> and the noise figures 1 and 0 the difference is below 1, but the code
  compares the double nearest to it, which is 1, and answers \<^verbatim>\<open>'ClangCL'\<close>.
\<close>

theorem winner_example_counterexample:
  "winner (Num (D 100)) (Num (D 105)) True (Num (D 1)) (Num (D 1)) = ''MSVC'' \<and>
   verdict_of (winner (Num (D 100)) (Num (D 105)) True (Num (D 1)) (Num (D 1))) \<noteq> CandB \<and>
   0 < max (val (D 1)) (val (D 0)) \<and>
   \<bar>val (D 1) - val (D (1 / 2 ^ 60))\<bar> < max (val (D 1)) (val (D 0)) \<and>
   winner (Num (D 1)) (Num (D (1 / 2 ^ 60))) True (Num (D 1)) (Num (D 0)) = ''ClangCL''"
  unfolding winner_100_105 winner_rounded_gap val_tiny by (simp add: verdict_of_def)

text \<open>
  C1, amended: for all values and noise figures, the special values included, and both
  directions, \<open>winner\<close> answers a tie, labelled \<^verbatim>\<open>'~Tie'\<close>, when the larger noise figure is
  positive and the absolute difference of the values, computed in double arithmetic, is
  below it; otherwise the smaller value's candidate wins when lower is better and the
  larger value's candidate when it is not, and the answer is a tie, labelled \<^verbatim>\<open>'Tie'\<close>,
  when neither value is smaller than the other. For finite numbers the difference
  compared with the noise is the exact difference rounded to the nearest double, and the
  values are compared exactly. The example
  \<open>adjudicate(100, 105, lowerIsBetter = true, stdA = 1, stdB = 1)\<close> gives A.
\<close>

theorem winner_noise_gate_then_direction:
  "winner a b low sa sb =
     (if js_gt (js_max sa sb) (Num (D 0)) \<and> js_lt (js_abs (js_sub a b)) (js_max sa sb)
      then ''~Tie''
      else if low
      then (if js_lt a b then ''MSVC'' else if js_lt b a then ''ClangCL'' else ''Tie'')
      else (if js_lt b a then ''MSVC'' else if js_lt a b then ''ClangCL'' else ''Tie''))
   \<and> verdict_of (winner a b low sa sb) =
     (if js_gt (js_max sa sb) (Num (D 0)) \<and> js_lt (js_abs (js_sub a b)) (js_max sa sb)
      then Tie
      else if low
      then (if js_lt a b then CandA else if js_lt b a then CandB else Tie)
      else (if js_lt b a then CandA else if js_lt a b then CandB else Tie))
   \<and> winner (Num x) (Num y) low (Num s) (Num t) =
     (if 0 < max (val s) (val t) \<and> \<bar>rd (val x - val y)\<bar> < max (val s) (val t)
      then ''~Tie''
      else if low
      then (if val x < val y then ''MSVC'' else if val y < val x then ''ClangCL'' else ''Tie'')
      else (if val y < val x then ''MSVC'' else if val x < val y then ''ClangCL'' else ''Tie''))
   \<and> verdict_of (winner (Num (D 100)) (Num (D 105)) True (Num (D 1)) (Num (D 1))) = CandA"
proof -
  have "verdict_of (winner a b low sa sb) =
     (if js_gt (js_max sa sb) (Num (D 0)) \<and> js_lt (js_abs (js_sub a b)) (js_max sa sb)
      then Tie
      else if low
      then (if js_lt a b then CandA else if js_lt b a then CandB else Tie)
      else (if js_lt b a then CandA else if js_lt a b then CandB else Tie))"
    unfolding winner_general by (simp add: verdict_of_def)
  moreover have "verdict_of (winner (Num (D 100)) (Num (D 105)) True (Num (D 1)) (Num (D 1))) = CandA"
    unfolding winner_100_105 by (simp add: verdict_of_def)
  ultimately show ?thesis
    using winner_general [of a b low sa sb] winner_finite [of x y low s t]
    by (simp only: simp_thms)
qed

theorem winner_noise_gate_then_direction_witness:
  "winner (Num (D 100)) (Num (D 100.5)) True (Num (D 2)) (Num (D 2)) = ''~Tie''
   \<and> winner (Num (D 100)) (Num (D 100)) True (Num (D 0)) (Num (D 0)) = ''Tie''
   \<and> verdict_of (winner (Num (D 100)) (Num (D 105)) False (Num (D 1)) (Num (D 1))) = CandB
   \<and> winner NaN (Num (D 1)) True PInf (Num (D 1)) = ''Tie''"
proof -
  have "rd (- (1 / 2)) = - (1 / 2)"
    using is_double_half [of 1] by (simp add: rd_minus is_double_fix)
  then show ?thesis
    using winner_noise_gate_then_direction
        [of NaN "Num (D 1)" True PInf "Num (D 1)" "D 100" "D 100.5" "D 2" "D 2"]
      winner_noise_gate_then_direction
        [of "Num (D 100)" "Num (D 100)" True "Num (D 0)" "Num (D 0)" "D 100" "D 100" "D 0" "D 0"]
      winner_noise_gate_then_direction
        [of "Num (D 100)" "Num (D 105)" False "Num (D 1)" "Num (D 1)" "D 100" "D 105" "D 1" "D 1"]
    by (simp add: js_gt_def less_double_def verdict_of_def)
qed

section \<open>Properties of the median\<close>

lemma rd_pos: "0 < x \<Longrightarrow> \<bar>rd x\<bar> \<ge> 2 ^ 1024 \<Longrightarrow> 0 < rd x"
  using rd_nonneg [of x] by simp

lemma rd_sign: "rd x \<noteq> 0 \<Longrightarrow> (0 < rd x) = (0 < x)"
proof -
  assume n: "rd x \<noteq> 0"
  show ?thesis
  proof (cases "0 \<le> x")
    case True
    with n have "x \<noteq> 0" by auto
    with True rd_nonneg [of x] n show ?thesis by simp
  next
    case False
    then have "0 \<le> rd (- x)" by (intro rd_nonneg) simp
    with False show ?thesis by (simp add: rd_minus)
  qed
qed

lemma halve_double:
  "\<bar>rd (val s / 2)\<bar> < 2 ^ 1024"
proof -
  have d: "is_double \<bar>val s\<bar>" "is_double (- \<bar>val s\<bar>)"
    by (simp_all add: is_double_abs is_double_neg)
  have "- \<bar>val s\<bar> \<le> val s / 2" "val s / 2 \<le> \<bar>val s\<bar>"
    by simp_all
  from rd_between(3) [OF d(2) d(1) this] show ?thesis
    by (rule is_double_bound)
qed

lemma js_half: "js_div (Num s) (Num (D 2)) = Num (D (val s / 2))"
  using halve_double [of s] by (simp add: fl_def)

lemma median_even_sum:
  "js_div (js_add (Num a) (Num b)) (Num (D 2)) = half_sum a b"
proof (cases "\<bar>rd (val a + val b)\<bar> < 2 ^ 1024")
  case True
  then have "js_add (Num a) (Num b) = Num (D (val a + val b))"
    by (simp only: js_add.simps fl_def if_True)
  moreover have "val (D (val a + val b)) = rd (val a + val b)"
    using True by (rule val_D)
  ultimately show ?thesis
    using True by (simp only: js_half half_sum_def Let_def if_True)
next
  case False
  then have n: "rd (val a + val b) \<noteq> 0"
    by auto
  show ?thesis
  proof (cases "0 < val a + val b")
    case True
    with False have "js_add (Num a) (Num b) = PInf"
      by (simp only: js_add.simps fl_def if_False if_True)
    then show ?thesis
      using False True rd_sign [OF n] by (simp add: half_sum_def)
  next
    case False': False
    with False have "js_add (Num a) (Num b) = NInf"
      by (simp only: js_add.simps fl_def if_False)
    then show ?thesis
      using False False' rd_sign [OF n] by (simp add: half_sum_def)
  qed
qed

lemma median_cases:
  assumes "xs \<noteq> []"
  shows "median xs =
           (if odd (length xs) then Num (sort xs ! (length xs div 2))
            else half_sum (sort xs ! (length xs div 2 - 1)) (sort xs ! (length xs div 2)))"
  unfolding median_nonempty [OF assms] median_even_sum ..

text \<open>The double \<open>2\<^sup>1\<^sup>0\<^sup>2\<^sup>3\<close>, and its sum with itself, which is no double.\<close>

lemma big_double: "is_double (2 powi 1023)"
proof -
  have "(2::real) powi 1023 = of_int (2 ^ 52) * 2 powi 971"
    using p2_add [of 52 971] by simp
  moreover have "\<bar>2 ^ 52 :: int\<bar> < 2 ^ 53" "(- 1074 :: int) \<le> 971" "(971 :: int) \<le> 971"
    by simp_all
  ultimately show ?thesis
    unfolding is_double_def by blast
qed

lemma half_sum_overflow: "half_sum (D (2 powi 1023)) (D (2 powi 1023)) = PInf"
proof -
  have v: "val (D (2 powi 1023)) = 2 powi 1023"
    using big_double by (rule val_D_double)
  have "(2::real) powi 1023 + 2 powi 1023 = of_int 1 * 2 powi 1024"
    using p2_add [of 1 1023] by simp
  moreover have "rd (of_int 1 * 2 powi 1024) = of_int 1 * 2 powi 1024"
    by (rule rd_fix) simp_all
  ultimately have r: "rd (2 powi 1023 + 2 powi 1023) = 2 powi 1024"
    by simp
  have p: "(2::real) powi 1024 = 2 ^ 1024"
    by (simp only: power_int_of_nat [symmetric]) simp
  show ?thesis
    unfolding half_sum_def v r Let_def p by simp
qed

lemma median_pair_same: "median [c, c] = half_sum c c"
  by (simp add: median_cases)

lemma median_of_two_huge: "median [D (2 powi 1023), D (2 powi 1023)] = PInf"
  unfolding median_pair_same by (rule half_sum_overflow)

lemma sorted_examples:
  "sort [D 1, D 2, D 3, D 4] = [D 1, D 2, D 3, D 4]"
  "sort [D 1, D 2, D 3] = [D 1, D 2, D 3]"
  "sort [D 7, D 1, D 4, D 2] = [D 1, D 2, D 4, D 7]"
  by (simp_all add: less_eq_double_def)

lemma half_sum_examples:
  "half_sum (D 2) (D 3) = Num (D 2.5)"
  "half_sum (D 2) (D 4) = Num (D 3)"
proof -
  have "\<bar>5 :: real\<bar> < 2 ^ 1024" "\<bar>6 :: real\<bar> < 2 ^ 1024"
    by simp_all
  then show "half_sum (D 2) (D 3) = Num (D 2.5)" "half_sum (D 2) (D 4) = Num (D 3)"
    by (simp_all add: half_sum_def)
qed

lemma median_examples:
  "median [D 1, D 2, D 3, D 4] = Num (D 2.5)"
  "median [D 1, D 2, D 3] = Num (D 2)"
  "median [D 7, D 1, D 4, D 2] = Num (D 3)"
  by (simp_all add: median_cases half_sum_examples less_eq_double_def)

text \<open>
  C6, as stated: for an even count the result is the mean of the two middle elements.
  For the two samples \<open>2\<^sup>1\<^sup>0\<^sup>2\<^sup>3\<close> and \<open>2\<^sup>1\<^sup>0\<^sup>2\<^sup>3\<close>, whose mean is \<open>2\<^sup>1\<^sup>0\<^sup>2\<^sup>3\<close>, the code
  returns \<^verbatim>\<open>Infinity\<close>: it adds the two before it halves, and the sum is beyond the
  largest double.
\<close>

theorem median_overflow_counterexample:
  "val (D (2 powi 1023)) = 2 powi 1023 \<and>
   (val (D (2 powi 1023)) + val (D (2 powi 1023))) / 2 = 2 powi 1023 \<and>
   median [D (2 powi 1023), D (2 powi 1023)] = PInf"
  using val_D_double [OF big_double] median_of_two_huge by simp

text \<open>
  C6, amended: for every non-empty list of samples, \<open>median\<close> takes the ascending
  arrangement of the samples (sorted, same elements with the same multiplicities) and
  returns its middle element when the count is odd; when the count is even it adds the
  two middle elements, rounding the sum to the nearest double, and returns the double
  nearest to half of that, or an infinity when the sum is beyond the largest double.
  \<open>median [1,2,3,4] = 2.5\<close> and \<open>median [1,2,3] = 2\<close>.
\<close>

theorem median_middle_of_sorted:
  "(xs \<noteq> [] \<longrightarrow>
      sorted (sort xs) \<and> mset (sort xs) = mset xs \<and>
      median xs =
        (if odd (length xs) then Num (sort xs ! (length xs div 2))
         else let s = rd (val (sort xs ! (length xs div 2 - 1)) + val (sort xs ! (length xs div 2)))
              in if \<bar>s\<bar> < 2 ^ 1024 then Num (D (s / 2)) else if 0 < s then PInf else NInf))
   \<and> median [D 1, D 2, D 3, D 4] = Num (D 2.5)
   \<and> median [D 1, D 2, D 3] = Num (D 2)"
proof -
  have "median xs =
        (if odd (length xs) then Num (sort xs ! (length xs div 2))
         else let s = rd (val (sort xs ! (length xs div 2 - 1)) + val (sort xs ! (length xs div 2)))
              in if \<bar>s\<bar> < 2 ^ 1024 then Num (D (s / 2)) else if 0 < s then PInf else NInf)"
    if "xs \<noteq> []"
    using median_cases [OF that] by (simp only: half_sum_def)
  moreover have "sorted (sort xs)" "mset (sort xs) = mset xs"
    by simp_all
  ultimately show ?thesis
    using median_examples(1,2) by blast
qed

theorem median_middle_of_sorted_witness:
  "[D 7, D 1, D 4, D 2] \<noteq> [] \<and> median [D 7, D 1, D 4, D 2] = Num (D 3)"
proof -
  have "\<bar>6 :: real\<bar> < 2 ^ 1024"
    by simp
  then show ?thesis
    using median_middle_of_sorted [of "[D 7, D 1, D 4, D 2]"]
    unfolding sorted_examples by simp
qed

section \<open>The median and the mean within the range of the samples\<close>

lemma sort_nth_bounds:
  assumes "i < length xs"
  shows "Min (set xs) \<le> sort xs ! i \<and> sort xs ! i \<le> Max (set xs)"
proof -
  have "sort xs ! i \<in> set (sort xs)" using assms by (simp del: set_sort)
  then have "sort xs ! i \<in> set xs" by simp
  then show ?thesis by simp
qed

text \<open>Twice a double is on the grid of the doubles, so rounding leaves it alone.\<close>

lemma rd_twice: "rd (2 * val a) = 2 * val a"
proof -
  obtain m e where a: "val a = of_int m * 2 powi e" and m: "\<bar>m\<bar> < 2 ^ 53" and e: "- 1074 \<le> e"
    using val_double [of a] unfolding is_double_def by blast
  have "2 * val a = of_int m * 2 powi (e + 1)"
    unfolding a using p2_add [of e 1] by simp
  moreover have "rd (of_int m * 2 powi (e + 1)) = of_int m * 2 powi (e + 1)"
    using m e by (intro rd_fix) simp_all
  ultimately show ?thesis by simp
qed

lemma half_sum_between:
  assumes "a \<le> b" and fin: "\<bar>rd (val a + val b)\<bar> < 2 ^ 1024"
  shows "\<exists>m. half_sum a b = Num m \<and> a \<le> m \<and> m \<le> b"
proof -
  let ?s = "rd (val a + val b)"
  have le: "val a \<le> val b"
    using assms(1) by (simp only: less_eq_double_def)
  have "rd (2 * val a) \<le> ?s" "?s \<le> rd (2 * val b)"
    using le by (intro rd_mono; simp)+
  then have "val a \<le> ?s / 2" "?s / 2 \<le> val b"
    unfolding rd_twice by simp_all
  from rd_between [OF val_double val_double this]
  have r: "val a \<le> rd (?s / 2)" "rd (?s / 2) \<le> val b" "is_double (rd (?s / 2))"
    by simp_all
  have "val (D (?s / 2)) = rd (?s / 2)"
    using is_double_bound [OF r(3)] by (rule val_D)
  with r(1,2) have "a \<le> D (?s / 2)" "D (?s / 2) \<le> b"
    by (simp_all only: less_eq_double_def)
  moreover have "half_sum a b = Num (D (?s / 2))"
    using fin by (simp only: half_sum_def Let_def if_True)
  ultimately show ?thesis by blast
qed

lemma half_sum_shape:
  "(\<exists>m. half_sum a b = Num m \<and> \<bar>rd (val a + val b)\<bar> < 2 ^ 1024) \<or>
   half_sum a b = PInf \<or> half_sum a b = NInf"
  unfolding half_sum_def Let_def by (cases "\<bar>rd (val a + val b)\<bar> < 2 ^ 1024") simp_all

lemma median_odd_range:
  assumes "xs \<noteq> []" "odd (length xs)"
  shows "\<exists>m. median xs = Num m \<and> Min (set xs) \<le> m \<and> m \<le> Max (set xs)"
proof -
  have "length xs div 2 < length xs" using assms(1) by simp
  from sort_nth_bounds [OF this] assms(2) show ?thesis
    by (simp add: median_cases [OF assms(1)])
qed

lemma median_range:
  assumes "xs \<noteq> []"
  shows "(\<exists>m. median xs = Num m \<and> Min (set xs) \<le> m \<and> m \<le> Max (set xs)) \<or>
         median xs = PInf \<or> median xs = NInf"
proof (cases "odd (length xs)")
  case True
  with median_odd_range [OF assms] show ?thesis by blast
next
  case False
  have lt: "length xs div 2 < length xs" using assms by simp
  then have lt1: "length xs div 2 - 1 < length xs" by simp
  let ?a = "sort xs ! (length xs div 2 - 1)" and ?b = "sort xs ! (length xs div 2)"
  have m: "median xs = half_sum ?a ?b"
    using False by (simp add: median_cases [OF assms])
  have ab: "?a \<le> ?b"
    using lt by (intro sorted_nth_mono) simp_all
  from half_sum_shape [of ?a ?b] show ?thesis
  proof (elim disjE exE conjE)
    fix m0 assume "\<bar>rd (val ?a + val ?b)\<bar> < 2 ^ 1024"
    from half_sum_between [OF ab this] obtain m1
      where h: "half_sum ?a ?b = Num m1" "?a \<le> m1" "m1 \<le> ?b" by blast
    have "Min (set xs) \<le> m1" "m1 \<le> Max (set xs)"
      using sort_nth_bounds [OF lt] sort_nth_bounds [OF lt1] h(2,3) by (meson order_trans)+
    with h(1) m show ?thesis by simp
  qed (simp_all add: m)
qed

lemma fl_not_NaN [simp]: "fl x \<noteq> NaN"
  by (simp add: fl_def)

lemma js_le_NInf [simp]: "js_le NInf b = (b \<noteq> NaN)"
  by (cases b) simp_all

lemma js_le_PInf [simp]: "js_le a PInf = (a \<noteq> NaN)"
  by (cases a) simp_all

lemma js_le_not_NaN: "js_le a b \<Longrightarrow> a \<noteq> NaN \<and> b \<noteq> NaN"
  by (cases a; cases b) simp_all

lemma fl_mono:
  assumes "x \<le> y"
  shows "js_le (fl x) (fl y)"
proof -
  have r: "rd x \<le> rd y"
    using assms by (rule rd_mono)
  show ?thesis
  proof (cases "\<bar>rd y\<bar> < 2 ^ 1024")
    case fy: True
    show ?thesis
    proof (cases "\<bar>rd x\<bar> < 2 ^ 1024")
      case True
      with fy r show ?thesis
        by (simp add: fl_def less_eq_double_def val_D)
    next
      case False
      have "\<not> 0 < x"
      proof
        assume "0 < x"
        then have "0 \<le> rd x" by (intro rd_nonneg) simp
        with False r fy show False by linarith
      qed
      with False fy show ?thesis
        by (simp add: fl_def)
    qed
  next
    case nby: False
    show ?thesis
    proof (cases "0 < y")
      case True
      with nby show ?thesis by (simp add: fl_def)
    next
      case False
      then have "rd y \<le> rd 0" by (intro rd_mono) simp
      then have "rd y \<le> 0" by simp
      with nby r have "\<not> \<bar>rd x\<bar> < 2 ^ 1024" by linarith
      moreover from False assms have "\<not> 0 < x" by linarith
      ultimately show ?thesis
        using nby False by (simp add: fl_def)
    qed
  qed
qed

lemma js_add_mono:
  assumes "js_le a a'" "b \<le> b'"
  shows "js_le (js_add a (Num b)) (js_add a' (Num b'))"
proof -
  have v: "val b \<le> val b'"
    using assms(2) by (simp only: less_eq_double_def)
  show ?thesis
  proof (cases a)
    case (Num x)
    note a = this
    show ?thesis
    proof (cases a')
      case (Num x')
      with a assms(1) have "val x + val b \<le> val x' + val b'"
        using v by (simp add: less_eq_double_def)
      with a Num show ?thesis by (simp add: fl_mono)
    qed (use a assms(1) in simp_all)
  next
    case NInf
    with assms(1) show ?thesis by (cases a') simp_all
  next
    case PInf
    with assms(1) show ?thesis by (cases a') simp_all
  next
    case NaN
    with assms(1) show ?thesis by simp
  qed
qed

lemma js_sum_mono:
  assumes "list_all2 (\<le>) xs ys" "js_le a a'"
  shows "js_le (foldl (\<lambda>a b. js_add a (Num b)) a xs) (foldl (\<lambda>a b. js_add a (Num b)) a' ys)"
  using assms
proof (induction xs ys arbitrary: a a' rule: list_all2_induct)
  case Nil
  then show ?case by simp
next
  case (Cons x xs y ys)
  from Cons.prems Cons.hyps(1) have "js_le (js_add a (Num x)) (js_add a' (Num y))"
    by (rule js_add_mono)
  from Cons.IH [OF this] show ?case by simp
qed

lemma js_div_mono:
  assumes "js_le a a'" "0 < val n"
  shows "js_le (js_div a (Num n)) (js_div a' (Num n))"
proof (cases a)
  case (Num x)
  note a = this
  show ?thesis
  proof (cases a')
    case (Num x')
    with a assms(1) have "val x \<le> val x'"
      by (simp add: less_eq_double_def)
    then have "val x / val n \<le> val x' / val n"
      using assms(2) by (simp add: divide_right_mono)
    with a Num assms(2) show ?thesis by (simp add: fl_mono)
  qed (use a assms in simp_all)
next
  case NInf
  with assms show ?thesis by (cases a') simp_all
next
  case PInf
  with assms show ?thesis by (cases a') simp_all
next
  case NaN
  with assms(1) show ?thesis by simp
qed

lemma mean_mono:
  assumes "list_all2 (\<le>) xs ys" "xs \<noteq> []" "length xs \<le> 2 ^ 53"
  shows "js_le (mean xs) (mean ys)"
proof -
  have l: "length ys = length xs"
    using assms(1) by (simp add: list_all2_lengthD)
  have "val (D (real (length xs))) = real (length xs)"
    using assms(3) by (rule val_D_of_nat)
  then have "0 < val (D (real (length xs)))"
    using assms(2) by simp
  moreover have "js_le (foldl (\<lambda>a b. js_add a (Num b)) (Num (D 0)) xs)
      (foldl (\<lambda>a b. js_add a (Num b)) (Num (D 0)) ys)"
    using assms(1) by (rule js_sum_mono) simp
  ultimately show ?thesis
    unfolding mean_def l by (intro js_div_mono)
qed

lemma mean_sandwich:
  assumes "xs \<noteq> []" "length xs \<le> 2 ^ 53"
  shows "js_le (mean (replicate (length xs) (Min (set xs)))) (mean xs)"
    and "js_le (mean xs) (mean (replicate (length xs) (Max (set xs))))"
proof -
  have "list_all2 (\<le>) (replicate (length xs) (Min (set xs))) xs"
    by (simp add: list_all2_conv_all_nth)
  then show "js_le (mean (replicate (length xs) (Min (set xs)))) (mean xs)"
    using assms by (intro mean_mono) simp_all
  have "list_all2 (\<le>) xs (replicate (length xs) (Max (set xs)))"
    by (simp add: list_all2_conv_all_nth)
  then show "js_le (mean xs) (mean (replicate (length xs) (Max (set xs))))"
    using assms by (intro mean_mono)
qed

lemma sum_replicate_exact:
  assumes "\<forall>i\<le>k + j. is_double (real i * val c)"
  shows "foldl (\<lambda>a b. js_add a (Num b)) (Num (D (real k * val c))) (replicate j c) =
           Num (D (real (k + j) * val c))"
  using assms
proof (induction j arbitrary: k)
  case 0
  then show ?case by simp
next
  case (Suc j)
  have "k \<le> k + Suc j" "Suc k \<le> k + Suc j"
    by simp_all
  with Suc.prems have dk: "is_double (real k * val c)" and dk1: "is_double (real (Suc k) * val c)"
    by blast+
  have "js_add (Num (D (real k * val c))) (Num c) = fl (real k * val c + val c)"
    by (simp add: val_D_double [OF dk])
  also have "real k * val c + val c = real (Suc k) * val c"
    by (simp add: algebra_simps)
  also have "fl (real (Suc k) * val c) = Num (D (real (Suc k) * val c))"
    using dk1 by (rule fl_double)
  finally have step: "js_add (Num (D (real k * val c))) (Num c) = Num (D (real (Suc k) * val c))" .
  have "\<forall>i\<le>Suc k + j. is_double (real i * val c)"
    using Suc.prems by simp
  from Suc.IH [OF this]
  have "foldl (\<lambda>a b. js_add a (Num b)) (Num (D (real (Suc k) * val c))) (replicate j c) =
      Num (D (real (k + Suc j) * val c))"
    by simp
  then show ?case
    by (simp only: replicate_Suc foldl_Cons step)
qed

lemma mean_replicate_exact:
  assumes "0 < n" "n \<le> 2 ^ 53" "\<forall>i\<le>n. is_double (real i * val c)"
  shows "mean (replicate n c) = Num c"
proof -
  have "foldl (\<lambda>a b. js_add a (Num b)) (Num (D (real 0 * val c))) (replicate n c) =
      Num (D (real (0 + n) * val c))"
    using assms(3) by (intro sum_replicate_exact) simp
  then have s: "foldl (\<lambda>a b. js_add a (Num b)) (Num (D 0)) (replicate n c) = Num (D (real n * val c))"
    by simp
  have d: "is_double (real n * val c)"
    using assms(3) by simp
  have n: "val (D (real n)) = real n"
    using assms(2) by (rule val_D_of_nat)
  have "js_div (Num (D (real n * val c))) (Num (D (real n))) = fl (val c)"
    using assms(1) by (simp add: val_D_double [OF d] n)
  then show ?thesis
    unfolding mean_def s by simp
qed

lemma between_Num:
  assumes "js_le (Num lo) a" "js_le a (Num hi)"
  shows "\<exists>m. a = Num m \<and> lo \<le> m \<and> m \<le> hi"
  using assms by (cases a) simp_all

lemma mean_range_exact:
  assumes "xs \<noteq> []" "length xs \<le> 2 ^ 53"
    and "\<forall>i\<le>length xs. is_double (real i * val (Min (set xs))) \<and> is_double (real i * val (Max (set xs)))"
  shows "\<exists>m. mean xs = Num m \<and> Min (set xs) \<le> m \<and> m \<le> Max (set xs)"
proof -
  have n: "0 < length xs" using assms(1) by simp
  have "mean (replicate (length xs) (Min (set xs))) = Num (Min (set xs))"
    using n assms(2,3) by (intro mean_replicate_exact) simp_all
  moreover have "mean (replicate (length xs) (Max (set xs))) = Num (Max (set xs))"
    using n assms(2,3) by (intro mean_replicate_exact) simp_all
  ultimately show ?thesis
    using mean_sandwich [OF assms(1,2)] by (intro between_Num) simp_all
qed

lemma sum_no_overflow:
  assumes "\<bar>val a\<bar> < 2 ^ 1023" "\<bar>val b\<bar> < 2 ^ 1023"
  shows "\<bar>rd (val a + val b)\<bar> < 2 ^ 1024"
proof -
  obtain c where c: "\<bar>val a\<bar> \<le> \<bar>val c\<bar>" "\<bar>val b\<bar> \<le> \<bar>val c\<bar>" "\<bar>val c\<bar> < 2 ^ 1023"
    using assms by (cases "\<bar>val a\<bar> \<le> \<bar>val b\<bar>") auto
  have hi: "rd \<bar>2 * val c\<bar> = \<bar>2 * val c\<bar>"
    by (simp only: rd_abs rd_twice)
  then have lo: "rd (- \<bar>2 * val c\<bar>) = - \<bar>2 * val c\<bar>"
    by (simp only: rd_minus)
  have "- \<bar>2 * val c\<bar> \<le> val a + val b" "val a + val b \<le> \<bar>2 * val c\<bar>"
    using c(1,2) by (simp_all add: abs_if split: if_splits)
  then have "rd (- \<bar>2 * val c\<bar>) \<le> rd (val a + val b)" "rd (val a + val b) \<le> rd \<bar>2 * val c\<bar>"
    by (simp_all only: rd_mono)
  then have "\<bar>rd (val a + val b)\<bar> \<le> 2 * \<bar>val c\<bar>"
    unfolding hi lo by (simp add: abs_le_iff abs_mult)
  also have "2 * \<bar>val c\<bar> < 2 * 2 ^ 1023"
    using c(3) by (intro mult_strict_left_mono) simp_all
  also have "(2::real) * 2 ^ 1023 = 2 ^ 1024"
    by simp
  finally show ?thesis .
qed

lemma median_range_bounded:
  assumes "xs \<noteq> []" "\<forall>x\<in>set xs. \<bar>val x\<bar> < 2 ^ 1023"
  shows "\<exists>m. median xs = Num m \<and> Min (set xs) \<le> m \<and> m \<le> Max (set xs)"
proof (cases "odd (length xs)")
  case True
  with median_odd_range [OF assms(1)] show ?thesis by blast
next
  case False
  have lt: "length xs div 2 < length xs" using assms(1) by simp
  then have lt1: "length xs div 2 - 1 < length xs" by simp
  let ?a = "sort xs ! (length xs div 2 - 1)" and ?b = "sort xs ! (length xs div 2)"
  have "?a \<in> set (sort xs)" "?b \<in> set (sort xs)"
    using lt lt1 by (simp_all del: set_sort)
  then have "\<bar>val ?a\<bar> < 2 ^ 1023" "\<bar>val ?b\<bar> < 2 ^ 1023"
    using assms(2) by simp_all
  then have fin: "\<bar>rd (val ?a + val ?b)\<bar> < 2 ^ 1024"
    by (rule sum_no_overflow)
  have "median xs \<noteq> PInf" "median xs \<noteq> NInf"
    using False fin by (simp_all add: median_cases [OF assms(1)] half_sum_def)
  with median_range [OF assms(1)] show ?thesis by blast
qed

text \<open>Three times the double nearest to 0.1, and a third of the double nearest to that.\<close>

lemma dbl_more:
  "is_double (3602879701896397 / 2 ^ 54)"
  "is_double (1351079888211149 / 2 ^ 52)"
  "is_double (7205759403792795 / 2 ^ 56)"
  using is_double_dyadic [of 3602879701896397 54, simplified]
    is_double_dyadic [of 1351079888211149 52, simplified]
    is_double_dyadic [of 7205759403792795 56, simplified]
  by simp_all

lemmas dbl' = dbl_more [simplified]

lemma D_tenth: "D (1 / 10) = D (3602879701896397 / 2 ^ 55)"
  using fl_tenth by (simp add: fl_def split: if_splits)

lemma mean_three_tenths:
  "mean [D (1 / 10), D (1 / 10), D (1 / 10)] = Num (D (7205759403792795 / 2 ^ 56))"
proof -
  let ?t = "D (3602879701896397 / 2 ^ 55)"
  have v: "val ?t = 3602879701896397 / 2 ^ 55"
    by (simp add: val_D_double dbl)
  have "js_add (Num (D 0)) (Num ?t) = Num ?t"
    by simp
  moreover have "js_add (Num ?t) (Num ?t) = Num (D (3602879701896397 / 2 ^ 54))"
    unfolding js_add.simps v by (simp add: fl_double dbl')
  moreover have "fl (3602879701896397 / 2 ^ 54 + 3602879701896397 / 2 ^ 55) =
      Num (D (1351079888211149 / 2 ^ 52))"
    by (rule fl_to [where k = "- 2" and q = "- 54" and n = 5404319552844596])
       (simp_all add: rne_def Let_def dbl')
  then have "js_add (Num (D (3602879701896397 / 2 ^ 54))) (Num ?t) =
      Num (D (1351079888211149 / 2 ^ 52))"
    unfolding js_add.simps v by (simp add: val_D_double dbl')
  moreover have "fl (1351079888211149 / 2 ^ 52 / 3) = Num (D (7205759403792795 / 2 ^ 56))"
    by (rule fl_to [where k = "- 4" and q = "- 56" and n = 7205759403792795])
       (simp_all add: rne_def Let_def dbl')
  then have "js_div (Num (D (1351079888211149 / 2 ^ 52))) (Num (D 3)) =
      Num (D (7205759403792795 / 2 ^ 56))"
    by (simp add: val_D_double dbl')
  ultimately show ?thesis
    unfolding mean_def D_tenth by (simp only: foldl_Cons foldl_Nil list.size) simp
qed

lemma tenth_below: "D (1 / 10) < D (7205759403792795 / 2 ^ 56)"
  unfolding D_tenth by (simp add: less_double_def val_D_double dbl dbl')

text \<open>
  C9, as stated: the mean and the median of a non-empty sample set lie between its
  smallest and its largest sample. The mean of three samples 0.1 is the next double
  above 0.1, as the sum of the three is rounded up; the median of two samples \<open>2\<^sup>1\<^sup>0\<^sup>2\<^sup>3\<close>
  is \<^verbatim>\<open>Infinity\<close>.
\<close>

theorem out_of_range_counterexample:
  "mean [D (1 / 10), D (1 / 10), D (1 / 10)] = Num (D (7205759403792795 / 2 ^ 56)) \<and>
   Max (set [D (1 / 10), D (1 / 10), D (1 / 10)]) = D (1 / 10) \<and>
   D (1 / 10) < D (7205759403792795 / 2 ^ 56) \<and>
   median [D (2 powi 1023), D (2 powi 1023)] = PInf"
  using mean_three_tenths tenth_below median_of_two_huge by simp

text \<open>
  C9, amended: for every non-empty sample set (an array has fewer than \<open>2\<^sup>3\<^sup>2\<close>
  elements), the median is a number between the smallest and the largest sample or an
  infinity; it is such a number when the count is odd and when all samples are below
  \<open>2\<^sup>1\<^sup>0\<^sup>2\<^sup>3\<close> in magnitude. The mean, whose sum is rounded after each addition, lies
  between the mean of as many copies of the smallest sample and the mean of as many
  copies of the largest sample; these are the smallest and the largest sample, and the
  mean is a number between them, when the multiples of the two up to the count are
  doubles.
\<close>

theorem median_mean_in_range:
  assumes "xs \<noteq> []" and "length xs < 2 ^ 32"
  shows "((\<exists>m. median xs = Num m \<and> Min (set xs) \<le> m \<and> m \<le> Max (set xs)) \<or>
          median xs = PInf \<or> median xs = NInf) \<and>
         (odd (length xs) \<or> (\<forall>x\<in>set xs. \<bar>val x\<bar> < 2 ^ 1023) \<longrightarrow>
            (\<exists>m. median xs = Num m \<and> Min (set xs) \<le> m \<and> m \<le> Max (set xs))) \<and>
         js_le (mean (replicate (length xs) (Min (set xs)))) (mean xs) \<and>
         js_le (mean xs) (mean (replicate (length xs) (Max (set xs)))) \<and>
         ((\<forall>i\<le>length xs. is_double (real i * val (Min (set xs))) \<and>
                          is_double (real i * val (Max (set xs)))) \<longrightarrow>
            (\<exists>a. mean xs = Num a \<and> Min (set xs) \<le> a \<and> a \<le> Max (set xs)))"
proof -
  have n: "length xs \<le> 2 ^ 53"
    using assms(2) by simp
  show ?thesis
    using median_range [OF assms(1)] median_odd_range [OF assms(1)]
      median_range_bounded [OF assms(1)] mean_sandwich [OF assms(1) n]
      mean_range_exact [OF assms(1) n]
    by blast
qed

theorem median_mean_in_range_witness:
  "[D 7, D 1, D 4, D 2] \<noteq> [] \<and> length [D 7, D 1, D 4, D 2] < (2 :: nat) ^ 32 \<and>
   (\<exists>m. median [D 7, D 1, D 4, D 2] = Num m \<and> D 1 \<le> m \<and> m \<le> D 7) \<and>
   (\<exists>a. mean [D 7, D 1, D 4, D 2] = Num a \<and> D 1 \<le> a \<and> a \<le> D 7)"
proof -
  let ?xs = "[D 7, D 1, D 4, D 2]"
  have mm: "Min (set ?xs) = D 1" "Max (set ?xs) = D 7"
    by (simp_all add: min_def max_def less_eq_double_def)
  have b: "\<forall>x\<in>set ?xs. \<bar>val x\<bar> < 2 ^ 1023"
    by simp
  have "is_double (real i * 1) \<and> is_double (real i * 7)" if "i \<le> 4" for i
    using that is_double_int [of "int i"] is_double_int [of "int i * 7"] by simp
  then have e: "\<forall>i\<le>length ?xs. is_double (real i * val (Min (set ?xs))) \<and>
      is_double (real i * val (Max (set ?xs)))"
    unfolding mm by simp
  have l: "?xs \<noteq> []" "length ?xs < (2 :: nat) ^ 32"
    by simp_all
  from median_mean_in_range [OF l] b e show ?thesis
    unfolding mm using l by blast
qed

section \<open>Properties of the summary: the weighted advantage\<close>

lemma pct_of_percent:
  "pct_of r =
     (if js_gt (r_msvc r) (Num (D 0)) then js_abs (percent_value (r_msvc r) (r_clang r))
      else Num (D 0))"
  by (simp add: pct_of_def percent_value_def)

lemma foldl_tally_advantage:
  "msvcAdvantage (foldl tally_step t rs) =
     foldl js_add (msvcAdvantage t) (map pct_of (filter (\<lambda>r. r_winner r = ''MSVC'') rs))"
  "clangAdvantage (foldl tally_step t rs) =
     foldl js_add (clangAdvantage t) (map pct_of (filter (\<lambda>r. r_winner r = ''ClangCL'') rs))"
  by (induction rs arbitrary: t; simp add: tally_step_def Let_def)+

lemma tally_all_advantage:
  "msvcAdvantage (tally_all rs) = advantage ''MSVC'' rs"
  "clangAdvantage (tally_all rs) = advantage ''ClangCL'' rs"
  by (simp_all add: tally_all_def foldl_tally_advantage advantage_def js_sum_def)

lemma js_abs_neg: "is_double y \<Longrightarrow> js_abs (Num (D (- y))) = js_abs (Num (D y))"
  by (simp add: val_D_uminus val_D_double)

lemma js_abs_pos: "is_double y \<Longrightarrow> 0 \<le> y \<Longrightarrow> js_abs (Num (D y)) = Num (D y)"
  by (simp add: val_D_double fl_double)

text \<open>The gaps of the rows of the examples.\<close>

lemma dbl_gaps:
  "is_double (1152921504606847 / 2 ^ 60)"
  "is_double (1152921504606847 / 2 ^ 59)"
  "is_double (3458764513820541 / 2 ^ 60)"
  "is_double (5404319552844595 / 2 ^ 54)"
  "is_double (1 / 4)"
  "is_double (3 / 4)"
  using is_double_dyadic [of 1152921504606847 60, simplified]
    is_double_dyadic [of 1152921504606847 59, simplified]
    is_double_dyadic [of 3458764513820541 60, simplified]
    is_double_dyadic [of 5404319552844595 54, simplified]
    is_double_dyadic [of 1 2, simplified]
    is_double_dyadic [of 3 2, simplified]
  by simp_all

lemmas dblg = dbl_gaps [simplified]

lemma percent_100_105: "percent_value (Num (D 100)) (Num (D 105)) = Num (D 5)"
proof -
  have "js_sub (Num (D 105)) (Num (D 100)) = Num (D 5)"
    by simp
  moreover have "fl (1 / 20) = Num (D (3602879701896397 / 2 ^ 56))"
    by (rule fl_to [where k = "- 5" and q = "- 57" and n = 7205759403792794])
       (simp_all add: rne_def Let_def dbl)
  then have "js_div (Num (D 5)) (Num (D 100)) = Num (D (3602879701896397 / 2 ^ 56))"
    by simp
  moreover have "fl (3602879701896397 / 2 ^ 56 * 100) = Num (D 5)"
    by (rule fl_to [where k = 2 and q = "- 50" and n = 5629499534213120])
       (simp_all add: rne_def Let_def is_double_numeral)
  then have "js_mul (Num (D (3602879701896397 / 2 ^ 56))) (Num (D 100)) = Num (D 5)"
    by (simp add: val_D_double dbl)
  ultimately show ?thesis
    by (simp only: percent_value_def)
qed

lemma percent_100_85: "percent_value (Num (D 100)) (Num (D 85)) = Num (D (- 15))"
proof -
  have "js_sub (Num (D 85)) (Num (D 100)) = Num (D (- 15))"
    by simp
  moreover have f: "fl (3 / 20) = Num (D (5404319552844595 / 2 ^ 55))"
    by (rule fl_to [where k = "- 3" and q = "- 55" and n = 5404319552844595])
       (simp_all add: rne_def Let_def dbl)
  have "js_div (Num (D (- 15))) (Num (D 100)) = Num (D (- (5404319552844595 / 2 ^ 55)))"
    using fl_neg [OF f dbl_consts(3)] by simp
  moreover have g: "fl (5404319552844595 / 2 ^ 55 * 100) = Num (D 15)"
    by (rule fl_to [where k = 3 and q = "- 49" and n = 8444249301319680])
       (simp_all add: rne_def Let_def is_double_numeral)
  have "js_mul (Num (D (- (5404319552844595 / 2 ^ 55)))) (Num (D 100)) = Num (D (- 15))"
    using fl_neg [OF g] by (simp add: val_D_uminus dbl is_double_numeral)
  ultimately show ?thesis
    by (simp only: percent_value_def)
qed

lemma percent_100_100: "percent_value (Num (D 100)) (Num (D 100)) = Num (D 0)"
  by (simp add: percent_value_def)

lemma pct_examples:
  "pct_of (example_row (Num (D 100)) (Num (D 105))) = Num (D 5)"
  "pct_of (example_row (Num (D 100)) (Num (D 85))) = Num (D 15)"
  "pct_of (example_row (Num (D 200)) (Num (D 205))) = Num (D (5 / 2))"
proof -
  have g: "js_gt (Num (D 100)) (Num (D 0))" "js_gt (Num (D 200)) (Num (D 0))"
    by (simp_all add: js_gt_def less_double_def)
  have r: "r_msvc (example_row a b) = a" "r_clang (example_row a b) = b" for a b
    by (simp_all add: example_row_def)
  show "pct_of (example_row (Num (D 100)) (Num (D 105))) = Num (D 5)"
    unfolding pct_of_percent r percent_100_105 using g by simp
  show "pct_of (example_row (Num (D 100)) (Num (D 85))) = Num (D 15)"
    unfolding pct_of_percent r percent_100_85 using g by simp
  show "pct_of (example_row (Num (D 200)) (Num (D 205))) = Num (D (5 / 2))"
    unfolding pct_of_percent r percent_200_205 using g
    by (simp add: val_D_double fl_double is_double_half [of 5, simplified])
qed

lemma toFixed_1_examples:
  "toFixed big 1 (Num (D 25)) = ''25.0''"
  "toFixed big 1 (Num (D 75)) = ''75.0''"
  "toFixed big 1 (Num (D 100)) = ''100.0''"
  "toFixed big 1 (Num (D 0)) = ''0.0''"
proof -
  have d: "digits 250 = ''250''" "digits 750 = ''750''" "digits 1000 = ''1000''" "digits 0 = ''0''"
    by (simp_all add: digits_step digits_small digit_char_def)
  show "toFixed big 1 (Num (D 25)) = ''25.0''" "toFixed big 1 (Num (D 75)) = ''75.0''"
    "toFixed big 1 (Num (D 100)) = ''100.0''" "toFixed big 1 (Num (D 0)) = ''0.0''"
    by (simp_all add: Let_def d)
qed

lemma worked_example_totals:
  "advantage ''MSVC'' [example_row (Num (D 100)) (Num (D 105)), example_row (Num (D 100)) (Num (D 85)),
      example_row (Num (D 100)) (Num (D 100))] = Num (D 5)"
  "advantage ''ClangCL'' [example_row (Num (D 100)) (Num (D 105)), example_row (Num (D 100)) (Num (D 85)),
      example_row (Num (D 100)) (Num (D 100))] = Num (D 15)"
  by (simp_all add: advantage_def js_sum_def example_row_winner pct_examples)

lemma share_values:
  "js_mul (js_div (Num (D 5)) (Num (D 20))) (Num (D 100)) = Num (D 25)"
  "js_mul (js_div (Num (D 15)) (Num (D 20))) (Num (D 100)) = Num (D 75)"
proof -
  have "js_div (Num (D 5)) (Num (D 20)) = Num (D (1 / 4))"
    by (simp add: fl_double dblg)
  then show "js_mul (js_div (Num (D 5)) (Num (D 20))) (Num (D 100)) = Num (D 25)"
    by (simp add: val_D_double dblg)
  have "js_div (Num (D 15)) (Num (D 20)) = Num (D (3 / 4))"
    by (simp add: fl_double dblg)
  then show "js_mul (js_div (Num (D 15)) (Num (D 20))) (Num (D 100)) = Num (D 75)"
    by (simp add: val_D_double dblg)
qed

lemma worked_example:
  fixes big
  defines "t \<equiv> tally_all [example_row (Num (D 100)) (Num (D 105)), example_row (Num (D 100)) (Num (D 85)),
      example_row (Num (D 100)) (Num (D 100))]"
  shows "msvcAdvantage t = Num (D 5)" "clangAdvantage t = Num (D 15)" "ties t = 1"
    "msvcShare big t = ''25.0''" "clangShare big t = ''75.0''" "overallWinner t = ''ClangCL''"
proof -
  show a: "msvcAdvantage t = Num (D 5)" and b: "clangAdvantage t = Num (D 15)"
    unfolding t_def tally_all_advantage worked_example_totals by (rule refl)+
  show "ties t = 1"
    unfolding t_def tally_all_def foldl_tally_counts by (simp add: example_row_winner)
  have tot: "totalAdv t = Num (D 20)"
    unfolding totalAdv_def a b by simp
  have g: "js_gt (Num (D 20)) (Num (D 0))"
    by (simp add: js_gt_def less_double_def)
  show "msvcShare big t = ''25.0''"
    unfolding msvcShare_def tot a share_values using g by (simp only: if_True toFixed_1_examples)
  show "clangShare big t = ''75.0''"
    unfolding clangShare_def tot b share_values using g by (simp only: if_True toFixed_1_examples)
  show "overallWinner t = ''ClangCL''"
    unfolding overallWinner_def a b by (simp add: js_gt_def less_double_def)
qed

text \<open>
  Three rows with the values 1000 and 1001, 1000 and 1002, 1000 and 997: the gaps are
  the doubles nearest to 0.1, 0.2 and 0.3, and the sum of the first two is the next
  double above the third.
\<close>

lemma percent_1000_1001:
  "percent_value (Num (D 1000)) (Num (D 1001)) = Num (D (3602879701896397 / 2 ^ 55))"
proof -
  have "js_sub (Num (D 1001)) (Num (D 1000)) = Num (D 1)"
    by simp
  moreover have "fl (1 / 1000) = Num (D (1152921504606847 / 2 ^ 60))"
    by (rule fl_to [where k = "- 10" and q = "- 62" and n = 4611686018427388])
       (simp_all add: rne_def Let_def dblg)
  then have "js_div (Num (D 1)) (Num (D 1000)) = Num (D (1152921504606847 / 2 ^ 60))"
    by simp
  moreover have "fl (1152921504606847 / 2 ^ 60 * 100) = Num (D (3602879701896397 / 2 ^ 55))"
    by (rule fl_to [where k = "- 4" and q = "- 56" and n = 7205759403792794])
       (simp_all add: rne_def Let_def dbl)
  then have "js_mul (Num (D (1152921504606847 / 2 ^ 60))) (Num (D 100)) =
      Num (D (3602879701896397 / 2 ^ 55))"
    by (simp add: val_D_double dblg)
  ultimately show ?thesis
    by (simp only: percent_value_def)
qed

lemma percent_1000_1002:
  "percent_value (Num (D 1000)) (Num (D 1002)) = Num (D (3602879701896397 / 2 ^ 54))"
proof -
  have "js_sub (Num (D 1002)) (Num (D 1000)) = Num (D 2)"
    by simp
  moreover have "fl (1 / 500) = Num (D (1152921504606847 / 2 ^ 59))"
    by (rule fl_to [where k = "- 9" and q = "- 61" and n = 4611686018427388])
       (simp_all add: rne_def Let_def dblg)
  then have "js_div (Num (D 2)) (Num (D 1000)) = Num (D (1152921504606847 / 2 ^ 59))"
    by simp
  moreover have "fl (1152921504606847 / 2 ^ 59 * 100) = Num (D (3602879701896397 / 2 ^ 54))"
    by (rule fl_to [where k = "- 3" and q = "- 55" and n = 7205759403792794])
       (simp_all add: rne_def Let_def dbl')
  then have "js_mul (Num (D (1152921504606847 / 2 ^ 59))) (Num (D 100)) =
      Num (D (3602879701896397 / 2 ^ 54))"
    by (simp add: val_D_double dblg)
  ultimately show ?thesis
    by (simp only: percent_value_def)
qed

lemma percent_1000_997:
  "percent_value (Num (D 1000)) (Num (D 997)) = Num (D (- (5404319552844595 / 2 ^ 54)))"
proof -
  have "js_sub (Num (D 997)) (Num (D 1000)) = Num (D (- 3))"
    by simp
  moreover have f: "fl (3 / 1000) = Num (D (3458764513820541 / 2 ^ 60))"
    by (rule fl_to [where k = "- 9" and q = "- 61" and n = 6917529027641082])
       (simp_all add: rne_def Let_def dblg)
  have "js_div (Num (D (- 3))) (Num (D 1000)) = Num (D (- (3458764513820541 / 2 ^ 60)))"
    using fl_neg [OF f dbl_gaps(3)] by simp
  moreover have g: "fl (3458764513820541 / 2 ^ 60 * 100) = Num (D (5404319552844595 / 2 ^ 54))"
    by (rule fl_to [where k = "- 2" and q = "- 54" and n = 5404319552844595])
       (simp_all add: rne_def Let_def dblg)
  have "js_mul (Num (D (- (3458764513820541 / 2 ^ 60)))) (Num (D 100)) =
      Num (D (- (5404319552844595 / 2 ^ 54)))"
    using fl_neg [OF g dbl_gaps(4)] by (simp add: val_D_uminus dblg)
  ultimately show ?thesis
    by (simp only: percent_value_def)
qed

lemma close_rows_winner:
  "r_winner (example_row (Num (D 1000)) (Num (D 1001))) = ''MSVC''"
  "r_winner (example_row (Num (D 1000)) (Num (D 1002))) = ''MSVC''"
  "r_winner (example_row (Num (D 1000)) (Num (D 997))) = ''ClangCL''"
  by (simp_all add: example_row_def winner_def js_gt_def less_double_def)

lemma close_rows_pct:
  "pct_of (example_row (Num (D 1000)) (Num (D 1001))) = Num (D (3602879701896397 / 2 ^ 55))"
  "pct_of (example_row (Num (D 1000)) (Num (D 1002))) = Num (D (3602879701896397 / 2 ^ 54))"
  "pct_of (example_row (Num (D 1000)) (Num (D 997))) = Num (D (5404319552844595 / 2 ^ 54))"
proof -
  have g: "js_gt (Num (D 1000)) (Num (D 0))"
    by (simp add: js_gt_def less_double_def)
  have r: "r_msvc (example_row a b) = a" "r_clang (example_row a b) = b" for a b
    by (simp_all add: example_row_def)
  show "pct_of (example_row (Num (D 1000)) (Num (D 1001))) = Num (D (3602879701896397 / 2 ^ 55))"
    unfolding pct_of_percent r percent_1000_1001 using g by (simp add: val_D_double fl_double dbl)
  show "pct_of (example_row (Num (D 1000)) (Num (D 1002))) = Num (D (3602879701896397 / 2 ^ 54))"
    unfolding pct_of_percent r percent_1000_1002 using g by (simp add: val_D_double fl_double dbl')
  show "pct_of (example_row (Num (D 1000)) (Num (D 997))) = Num (D (5404319552844595 / 2 ^ 54))"
    unfolding pct_of_percent r percent_1000_997 using g
    by (simp add: val_D_uminus val_D_double fl_double dblg)
qed

lemma close_rows_totals:
  "advantage ''MSVC'' [example_row (Num (D 1000)) (Num (D 1001)), example_row (Num (D 1000)) (Num (D 1002)),
      example_row (Num (D 1000)) (Num (D 997))] = Num (D (1351079888211149 / 2 ^ 52))"
  "advantage ''ClangCL'' [example_row (Num (D 1000)) (Num (D 1001)), example_row (Num (D 1000)) (Num (D 1002)),
      example_row (Num (D 1000)) (Num (D 997))] = Num (D (5404319552844595 / 2 ^ 54))"
proof -
  have "fl (3602879701896397 / 2 ^ 55 + 3602879701896397 / 2 ^ 54) =
      Num (D (1351079888211149 / 2 ^ 52))"
    by (rule fl_to [where k = "- 2" and q = "- 54" and n = 5404319552844596])
       (simp_all add: rne_def Let_def dbl')
  then have "js_add (js_add (Num (D 0)) (Num (D (3602879701896397 / 2 ^ 55))))
      (Num (D (3602879701896397 / 2 ^ 54))) = Num (D (1351079888211149 / 2 ^ 52))"
    by (simp add: val_D_double fl_double dbl dbl')
  then show "advantage ''MSVC'' [example_row (Num (D 1000)) (Num (D 1001)),
      example_row (Num (D 1000)) (Num (D 1002)), example_row (Num (D 1000)) (Num (D 997))] =
      Num (D (1351079888211149 / 2 ^ 52))"
    unfolding advantage_def js_sum_def
    by (simp add: close_rows_winner close_rows_pct)
  have "js_add (Num (D 0)) (Num (D (5404319552844595 / 2 ^ 54))) = Num (D (5404319552844595 / 2 ^ 54))"
    by (simp add: val_D_double fl_double dblg)
  then show "advantage ''ClangCL'' [example_row (Num (D 1000)) (Num (D 1001)),
      example_row (Num (D 1000)) (Num (D 1002)), example_row (Num (D 1000)) (Num (D 997))] =
      Num (D (5404319552844595 / 2 ^ 54))"
    unfolding advantage_def js_sum_def
    by (simp add: close_rows_winner close_rows_pct)
qed

text \<open>
  C2, as stated: the overall verdict is a tie when the two totals of the percentage gaps
  are equal. For the rows (1000, 1001), (1000, 1002) and (1000, 997) candidate A wins
  the first two, with gaps of 0.1 and 0.2 percent, and candidate B the third, with a gap
  of 0.3 percent: the totals are equal, but the code, which adds doubles, finds
  \<^verbatim>\<open>0.30000000000000004\<close> for A and \<^verbatim>\<open>0.3\<close> for B and answers \<^verbatim>\<open>'MSVC'\<close>.
\<close>

theorem rounded_totals_counterexample:
  "map r_winner [example_row (Num (D 1000)) (Num (D 1001)), example_row (Num (D 1000)) (Num (D 1002)),
      example_row (Num (D 1000)) (Num (D 997))] = [''MSVC'', ''MSVC'', ''ClangCL''] \<and>
   \<bar>(1001 - 1000) / 1000 * 100\<bar> + \<bar>(1002 - 1000) / 1000 * 100\<bar> = \<bar>(997 - 1000) / 1000 * 100 :: real\<bar> \<and>
   msvcAdvantage (tally_all [example_row (Num (D 1000)) (Num (D 1001)),
      example_row (Num (D 1000)) (Num (D 1002)), example_row (Num (D 1000)) (Num (D 997))]) =
     Num (D (1351079888211149 / 2 ^ 52)) \<and>
   clangAdvantage (tally_all [example_row (Num (D 1000)) (Num (D 1001)),
      example_row (Num (D 1000)) (Num (D 1002)), example_row (Num (D 1000)) (Num (D 997))]) =
     Num (D (5404319552844595 / 2 ^ 54)) \<and>
   overallWinner (tally_all [example_row (Num (D 1000)) (Num (D 1001)),
      example_row (Num (D 1000)) (Num (D 1002)), example_row (Num (D 1000)) (Num (D 997))]) = ''MSVC''"
proof -
  have "js_gt (Num (D (1351079888211149 / 2 ^ 52))) (Num (D (5404319552844595 / 2 ^ 54)))"
    by (simp add: js_gt_def less_double_def val_D_double dbl' dblg)
  then show ?thesis
    unfolding overallWinner_def tally_all_advantage close_rows_totals
    by (simp add: close_rows_winner)
qed

text \<open>
  C2, amended: for every list of rows, the loop adds, in double arithmetic and in the
  order of the rows, the absolute percentage gap of each row (computed as \<open>pctDiff\<close>
  computes its number, with candidate A's value as the denominator, and zero when
  candidate A's value is not greater than zero) to the total of the candidate named by
  the row's label; the other rows add to neither total and are counted as ties. With a grand
  total greater than zero, each share is the candidate's total divided by the grand
  total, times 100, with one decimal; otherwise both shares are \<^verbatim>\<open>50.0\<close>. The overall
  verdict is the candidate whose total is greater than the other's, and a tie when
  neither is. For three rows with winner and gap (A, 5%), (B, 15%) and a tie, the totals
  are 5 and 15, the shares \<^verbatim>\<open>25.0\<close> and \<^verbatim>\<open>75.0\<close>, and the overall verdict is B.
\<close>

theorem weighted_advantage_summary:
  "msvcAdvantage (tally_all rs) = advantage ''MSVC'' rs
   \<and> clangAdvantage (tally_all rs) = advantage ''ClangCL'' rs
   \<and> ties (tally_all rs) =
       length (filter (\<lambda>r. r_winner r \<noteq> ''MSVC'' \<and> r_winner r \<noteq> ''ClangCL'') rs)
   \<and> pct_of r =
       (if js_gt (r_msvc r) (Num (D 0)) then js_abs (percent_value (r_msvc r) (r_clang r))
        else Num (D 0))
   \<and> msvcShare big (tally_all rs) =
       (if js_gt (js_add (advantage ''MSVC'' rs) (advantage ''ClangCL'' rs)) (Num (D 0))
        then toFixed big 1
               (js_mul (js_div (advantage ''MSVC'' rs)
                               (js_add (advantage ''MSVC'' rs) (advantage ''ClangCL'' rs)))
                       (Num (D 100)))
        else ''50.0'')
   \<and> clangShare big (tally_all rs) =
       (if js_gt (js_add (advantage ''MSVC'' rs) (advantage ''ClangCL'' rs)) (Num (D 0))
        then toFixed big 1
               (js_mul (js_div (advantage ''ClangCL'' rs)
                               (js_add (advantage ''MSVC'' rs) (advantage ''ClangCL'' rs)))
                       (Num (D 100)))
        else ''50.0'')
   \<and> overallWinner (tally_all rs) =
       (if js_gt (advantage ''MSVC'' rs) (advantage ''ClangCL'' rs) then ''MSVC''
        else if js_gt (advantage ''ClangCL'' rs) (advantage ''MSVC'' rs) then ''ClangCL''
        else ''Tie'')
   \<and> (let t = tally_all [example_row (Num (D 100)) (Num (D 105)), example_row (Num (D 100)) (Num (D 85)),
                          example_row (Num (D 100)) (Num (D 100))]
      in msvcAdvantage t = Num (D 5) \<and> clangAdvantage t = Num (D 15) \<and> ties t = 1 \<and>
         msvcShare big t = ''25.0'' \<and> clangShare big t = ''75.0'' \<and>
         verdict_of (overallWinner t) = CandB)"
proof -
  have "ties (tally_all rs) =
       length (filter (\<lambda>r. r_winner r \<noteq> ''MSVC'' \<and> r_winner r \<noteq> ''ClangCL'') rs)"
    unfolding tally_all_def foldl_tally_counts by simp
  moreover have "verdict_of ''ClangCL'' = CandB"
    by (simp add: verdict_of_def)
  then have "let t = tally_all [example_row (Num (D 100)) (Num (D 105)), example_row (Num (D 100)) (Num (D 85)),
                          example_row (Num (D 100)) (Num (D 100))]
      in msvcAdvantage t = Num (D 5) \<and> clangAdvantage t = Num (D 15) \<and> ties t = 1 \<and>
         msvcShare big t = ''25.0'' \<and> clangShare big t = ''75.0'' \<and>
         verdict_of (overallWinner t) = CandB"
    unfolding Let_def worked_example by (simp only: simp_thms)
  moreover have "msvcShare big (tally_all rs) =
       (if js_gt (js_add (advantage ''MSVC'' rs) (advantage ''ClangCL'' rs)) (Num (D 0))
        then toFixed big 1
               (js_mul (js_div (advantage ''MSVC'' rs)
                               (js_add (advantage ''MSVC'' rs) (advantage ''ClangCL'' rs)))
                       (Num (D 100)))
        else ''50.0'')"
    unfolding msvcShare_def totalAdv_def tally_all_advantage by (rule refl)
  moreover have "clangShare big (tally_all rs) =
       (if js_gt (js_add (advantage ''MSVC'' rs) (advantage ''ClangCL'' rs)) (Num (D 0))
        then toFixed big 1
               (js_mul (js_div (advantage ''ClangCL'' rs)
                               (js_add (advantage ''MSVC'' rs) (advantage ''ClangCL'' rs)))
                       (Num (D 100)))
        else ''50.0'')"
    unfolding clangShare_def totalAdv_def tally_all_advantage by (rule refl)
  moreover have "overallWinner (tally_all rs) =
       (if js_gt (advantage ''MSVC'' rs) (advantage ''ClangCL'' rs) then ''MSVC''
        else if js_gt (advantage ''ClangCL'' rs) (advantage ''MSVC'' rs) then ''ClangCL''
        else ''Tie'')"
    unfolding overallWinner_def tally_all_advantage by (rule refl)
  ultimately show ?thesis
    using pct_of_percent [of r] tally_all_advantage [of rs] by (simp only: simp_thms)
qed

theorem weighted_advantage_summary_witness:
  "msvcAdvantage (tally_all [example_row (Num (D 200)) (Num (D 205))]) = Num (D (5 / 2))
   \<and> clangAdvantage (tally_all [example_row (Num (D 200)) (Num (D 205))]) = Num (D 0)
   \<and> msvcShare (\<lambda>x. []) (tally_all [example_row (Num (D 200)) (Num (D 205))]) = ''100.0''
   \<and> clangShare (\<lambda>x. []) (tally_all [example_row (Num (D 200)) (Num (D 205))]) = ''0.0''
   \<and> overallWinner (tally_all [example_row (Num (D 200)) (Num (D 205))]) = ''MSVC''
   \<and> msvcShare (\<lambda>x. []) (tally_all []) = ''50.0''
   \<and> overallWinner (tally_all []) = ''Tie''"
proof -
  have w: "r_winner (example_row (Num (D 200)) (Num (D 205))) = ''MSVC''"
    by (simp add: example_row_def winner_def js_gt_def less_double_def)
  have h: "is_double (5 / 2)"
    using is_double_half [of 5] by simp
  have a: "advantage ''MSVC'' [example_row (Num (D 200)) (Num (D 205))] = Num (D (5 / 2))"
    "advantage ''ClangCL'' [example_row (Num (D 200)) (Num (D 205))] = Num (D 0)"
    "advantage ''MSVC'' [] = Num (D 0)" "advantage ''ClangCL'' [] = Num (D 0)"
    by (simp_all add: advantage_def js_sum_def w pct_examples val_D_double fl_double h)
  have s: "js_add (Num (D (5 / 2))) (Num (D 0)) = Num (D (5 / 2))"
    "js_mul (js_div (Num (D (5 / 2))) (Num (D (5 / 2)))) (Num (D 100)) = Num (D 100)"
    "js_mul (js_div (Num (D 0)) (Num (D (5 / 2)))) (Num (D 100)) = Num (D 0)"
    by (simp_all add: val_D_double fl_double h)
  show ?thesis
    using weighted_advantage_summary [of "[example_row (Num (D 200)) (Num (D 205))]" _ "\<lambda>x. []"]
      weighted_advantage_summary [of "[]" _ "\<lambda>x. []"]
    unfolding a s
    by (simp add: toFixed_1_examples js_gt_def less_double_def val_D_double h del: toFixed.simps One_nat_def)
qed

end
